theory Spec2Isabelle
  imports Main "HOL-Library.Multiset" "HOL-Library.Sublist"
begin

section \<open>Dates, datetimes and durations\<close>

text \<open>
  The program works on Python's naive \<^verbatim>\<open>date\<close>, \<^verbatim>\<open>datetime\<close> and \<^verbatim>\<open>timedelta\<close> values.
  A \<^verbatim>\<open>date\<close> is represented by its proleptic Gregorian ordinal (\<^verbatim>\<open>date.toordinal()\<close>,
  0001-01-01 is day 1), a \<^verbatim>\<open>datetime\<close> by the number of microseconds since
  0001-01-01T00:00:00 (\<^verbatim>\<open>datetime.min\<close>), and a \<^verbatim>\<open>timedelta\<close> by a number of microseconds.
  Comparison, \<^verbatim>\<open>datetime - datetime\<close>, \<^verbatim>\<open>datetime + timedelta\<close> and
  \<^verbatim>\<open>datetime - timedelta\<close> are then the integer operations. Python's datetimes end at
  9999-12-31T23:59:59.999999; the \<^verbatim>\<open>OverflowError\<close> of arithmetic that leaves the
  representable range is not part of the model.
\<close>

type_synonym date = int
type_synonym datetime = int
type_synonym timedelta = int

definition usec_per_day :: int where
  "usec_per_day = 86400000000"

text \<open>The calendar arithmetic of CPython's \<^verbatim>\<open>datetime\<close> module.\<close>

definition is_leap :: "int \<Rightarrow> bool" where
  "is_leap year \<longleftrightarrow> year mod 4 = 0 \<and> (year mod 400 = 0 \<or> year mod 100 \<noteq> 0)"

definition DAYS_IN_MONTH :: "int list" where
  "DAYS_IN_MONTH = [-1, 31, 28, 31, 30, 31, 30, 31, 31, 30, 31, 30, 31]"

definition DAYS_BEFORE_MONTH :: "int list" where
  "DAYS_BEFORE_MONTH = [-1, 0, 31, 59, 90, 120, 151, 181, 212, 243, 273, 304, 334]"

definition days_before_year :: "int \<Rightarrow> int" where
  "days_before_year year =
     (let y = year - 1 in y * 365 + y div 4 - y div 100 + y div 400)"

definition days_in_month :: "int \<Rightarrow> int \<Rightarrow> int" where
  "days_in_month year month =
     (if month = 2 \<and> is_leap year then 29 else DAYS_IN_MONTH ! nat month)"

definition days_before_month :: "int \<Rightarrow> int \<Rightarrow> int" where
  "days_before_month year month =
     DAYS_BEFORE_MONTH ! nat month + (if month > 2 \<and> is_leap year then 1 else 0)"

definition ymd2ord :: "int \<Rightarrow> int \<Rightarrow> int \<Rightarrow> date" where
  "ymd2ord year month day = days_before_year year + days_before_month year month + day"

definition ord2ymd :: "date \<Rightarrow> int \<times> int \<times> int" where
  "ord2ymd n0 =
     (let n = n0 - 1;
          n400 = n div 146097; n = n mod 146097;
          year = n400 * 400 + 1;
          n100 = n div 36524; n = n mod 36524;
          n4 = n div 1461; n = n mod 1461;
          n1 = n div 365; n = n mod 365;
          year = year + n100 * 100 + n4 * 4 + n1
      in if n1 = 4 \<or> n100 = 4 then (year - 1, 12, 31)
         else
           let leapyear = (n1 = 3 \<and> (n4 \<noteq> 24 \<or> n100 = 3));
               month = (n + 50) div 32;
               preceding = DAYS_BEFORE_MONTH ! nat month
                             + (if month > 2 \<and> leapyear then 1 else 0);
               (month, preceding) =
                  (if preceding > n
                   then (month - 1,
                         preceding - (DAYS_IN_MONTH ! nat (month - 1)
                                        + (if month - 1 = 2 \<and> leapyear then 1 else 0)))
                   else (month, preceding))
           in (year, month, n - preceding + 1))"

text \<open>The constructors \<^verbatim>\<open>date(y, m, d)\<close> and \<^verbatim>\<open>datetime(y, m, d, hh, mm, ss)\<close>, on valid fields.\<close>

definition mk_date :: "int \<Rightarrow> int \<Rightarrow> int \<Rightarrow> date" where
  "mk_date year month day = ymd2ord year month day"

definition mk_datetime :: "int \<Rightarrow> int \<Rightarrow> int \<Rightarrow> int \<Rightarrow> int \<Rightarrow> int \<Rightarrow> datetime" where
  "mk_datetime year month day hh mm ss =
     ((ymd2ord year month day - 1) * 86400 + hh * 3600 + mm * 60 + ss) * 1000000"

text \<open>\<^verbatim>\<open>datetime.date()\<close>: the calendar day of a datetime.\<close>

definition date_of :: "datetime \<Rightarrow> date" where
  "date_of t = t div usec_per_day + 1"

text \<open>
  A date-or-datetime argument. \<^verbatim>\<open>type(d) is date\<close> holds for a plain date only, so the two
  cases of \<^verbatim>\<open>as_datetime\<close> are the two constructors.
\<close>

datatype date_arg = Date date | DateTime datetime

definition as_datetime :: "date_arg \<Rightarrow> bool \<Rightarrow> datetime" where
  "as_datetime d end_flag =
     (case d of
        Date n \<Rightarrow>
          (n - 1) * usec_per_day
            + (if end_flag then (23 * 3600 + 59 * 60 + 59) * 1000000 else 0)
      | DateTime t \<Rightarrow> t)"

text \<open>Python's truth test on an optional argument: \<^verbatim>\<open>None\<close> is false, a date or datetime is true.\<close>

definition given :: "'a option \<Rightarrow> bool" where
  "given x = (case x of None \<Rightarrow> False | Some _ \<Rightarrow> True)"

section \<open>The repeat pattern generator\<close>

text \<open>
  \<^verbatim>\<open>dateutil.rrule.rrule(freq, dtstart=..., count=...)\<close> is a library outside the repository.
  It is modelled for the four frequencies of \<^verbatim>\<open>REPEAT_CHOICES\<close> as the library documents it:
  the microseconds of \<^verbatim>\<open>dtstart\<close> are dropped, the time of day is kept, and the days are
  \<^verbatim>\<open>dtstart\<close>'s day and then every day, every seventh day, the same day of every month
  (months without that day are skipped) or the same month and day of every year (years
  without it are skipped); generation stops after \<^verbatim>\<open>count\<close> results or at the end of year
  9999.
\<close>

datatype freq = YEARLY | MONTHLY | WEEKLY | DAILY

definition max_ordinal :: date where
  "max_ordinal = 3652059"

function stepped :: "date \<Rightarrow> int \<Rightarrow> nat \<Rightarrow> date list" where
  "stepped d step n =
     (if n = 0 \<or> d > max_ordinal then [] else d # stepped (d + step) step (n - 1))"
  by pat_completeness auto
termination
  by (relation "measure (\<lambda>(d, step, n). n)") auto

function monthly :: "int \<Rightarrow> int \<Rightarrow> nat \<Rightarrow> date list" where
  "monthly mi day n =
     (if n = 0 \<or> mi \<ge> 120000 then []
      else if day \<le> days_in_month (mi div 12) (mi mod 12 + 1)
           then ymd2ord (mi div 12) (mi mod 12 + 1) day # monthly (mi + 1) day (n - 1)
           else monthly (mi + 1) day n)"
  by pat_completeness auto
termination
  by (relation "measure (\<lambda>(mi, day, n). nat (120000 - mi))") auto

function yearly :: "int \<Rightarrow> int \<Rightarrow> int \<Rightarrow> nat \<Rightarrow> date list" where
  "yearly year month day n =
     (if n = 0 \<or> year > 9999 then []
      else if day \<le> days_in_month year month
           then ymd2ord year month day # yearly (year + 1) month day (n - 1)
           else yearly (year + 1) month day n)"
  by pat_completeness auto
termination
  by (relation "measure (\<lambda>(year, month, day, n). nat (10000 - year))") auto

declare stepped.simps [simp del] monthly.simps [simp del] yearly.simps [simp del]

definition rrule :: "freq \<Rightarrow> datetime \<Rightarrow> nat \<Rightarrow> datetime list" where
  "rrule f dtstart cnt =
     (let d0 = date_of dtstart;
          tod = (dtstart mod usec_per_day) div 1000000 * 1000000
      in map (\<lambda>n. (n - 1) * usec_per_day + tod)
           (case f of
              DAILY \<Rightarrow> stepped d0 1 cnt
            | WEEKLY \<Rightarrow> stepped d0 7 cnt
            | MONTHLY \<Rightarrow>
                (case ord2ymd d0 of (y, m, d) \<Rightarrow> monthly (y * 12 + (m - 1)) d cnt)
            | YEARLY \<Rightarrow>
                (case ord2ymd d0 of (y, m, d) \<Rightarrow> yearly y m d cnt)))"

text \<open>
  \<^verbatim>\<open>rrule.between(after, before, inc=True)\<close>: the library walks the generated datetimes,
  stops at the first one later than \<^verbatim>\<open>before\<close>, and collects from the first one not
  earlier than \<^verbatim>\<open>after\<close>.
\<close>

fun between :: "datetime \<Rightarrow> datetime \<Rightarrow> bool \<Rightarrow> datetime list \<Rightarrow> datetime list" where
  "between after before started [] = []"
| "between after before started (i # gen) =
     (if i > before then []
      else if \<not> started
           then (if i \<ge> after then i # between after before True gen
                 else between after before False gen)
           else i # between after before True gen)"

section \<open>Occurrences\<close>

text \<open>
  \<^verbatim>\<open>BaseOccurrence\<close>: the stored fields, the primary key and the \<^verbatim>\<open>occurrence_data\<close> that
  subclasses override. \<^verbatim>\<open>start\<close> and \<^verbatim>\<open>end\<close> are non-null fields; \<^verbatim>\<open>repeat\<close> and
  \<^verbatim>\<open>repeat_until\<close> are nullable. The field \<^verbatim>\<open>end\<close> is written \<open>end_dt\<close>, as \<open>end\<close> is a
  reserved word here.
\<close>

record 'a occurrence =
  pk :: nat
  start :: datetime
  end_dt :: datetime
  repeat :: "freq option"
  repeat_until :: "date option"
  occurrence_data :: 'a

type_synonym 'a occ_instance = "datetime \<times> datetime \<times> 'a"

definition REPEAT_MAX :: nat where
  "REPEAT_MAX = 200"

text \<open>\<^verbatim>\<open>BaseOccurrence.all_occurrences\<close>; the generator is the list of what it yields.\<close>

definition occurrence_all_occurrences ::
  "'a occurrence \<Rightarrow> date_arg option \<Rightarrow> date_arg option \<Rightarrow> 'a occ_instance list" where
  "occurrence_all_occurrences self from_date0 to_date0 =
     (let from_date = map_option (\<lambda>d. as_datetime d False) from_date0;
          to_date = map_option (\<lambda>d. as_datetime d True) to_date0
      in case repeat self of
           None \<Rightarrow>
             if (case from_date of None \<Rightarrow> True | Some f \<Rightarrow> start self \<ge> f) \<and>
                (case to_date of None \<Rightarrow> True | Some t \<Rightarrow> start self \<le> t)
             then [(start self, end_dt self, occurrence_data self)]
             else []
         | Some fr \<Rightarrow>
             let delta = end_dt self - start self;
                 repeater = rrule fr (start self) REPEAT_MAX;
                 to_date =
                   (case repeat_until self of
                      None \<Rightarrow> to_date
                    | Some ru \<Rightarrow>
                        if (case to_date of None \<Rightarrow> True
                            | Some t \<Rightarrow> as_datetime (Date ru) True < t)
                        then Some (as_datetime (Date ru) True)
                        else to_date);
                 repeater =
                   (if given from_date \<or> given to_date
                    then
                      let from_date = map_option (\<lambda>f. f - (end_dt self - start self)) from_date
                      in between
                           (case from_date of None \<Rightarrow> mk_datetime 1 1 1 0 0 0 | Some f \<Rightarrow> f)
                           (case to_date of None \<Rightarrow> mk_datetime 9999 12 31 23 59 0
                            | Some t \<Rightarrow> t)
                           False repeater
                    else repeater)
             in map (\<lambda>occ_start. (occ_start, occ_start + delta, occurrence_data self)) repeater)"

text \<open>
  \<^verbatim>\<open>BaseOccurrence.clean\<close>. The truth tests \<^verbatim>\<open>self.start and self.end\<close> guard against fields
  that are still unset while a form is validated, so the checks take optional fields; on a
  stored occurrence both are set.
\<close>

datatype error = ValidationError string

definition clean_checks ::
  "datetime option \<Rightarrow> datetime option \<Rightarrow> freq option \<Rightarrow> date option \<Rightarrow> error + unit" where
  "clean_checks st en rp ru =
     (if (case (st, en) of (Some s, Some e) \<Rightarrow> s \<ge> e | _ \<Rightarrow> False)
      then Inl (ValidationError ''End must be after start'')
      else if given ru \<and> rp = None
      then Inl (ValidationError
                 ''Select a repeat interval, or remove the 'repeat until' date'')
      else if (case (st, ru) of (Some s, Some u) \<Rightarrow> u < date_of s | _ \<Rightarrow> False)
      then Inl (ValidationError '''Repeat until' cannot be before the first occurrence'')
      else Inr ())"

definition clean :: "'a occurrence \<Rightarrow> error + unit" where
  "clean self =
     clean_checks (Some (start self)) (Some (end_dt self)) (repeat self) (repeat_until self)"

section \<open>Merging occurrence streams\<close>

text \<open>
  \<^verbatim>\<open>first_item\<close> and \<^verbatim>\<open>combine_occurrences\<close>. A generator is the list of the items it still
  yields. A group, the dictionary \<^verbatim>\<open>{'generator': gen, 'next': next_date}\<close>, is the pair of its
  \<^verbatim>\<open>next\<close> item and the rest of its generator; \<^verbatim>\<open>item[0]\<close> is the first component.
\<close>

definition first_item :: "'i list \<Rightarrow> 'i option" where
  "first_item gen = (case gen of [] \<Rightarrow> None | x # _ \<Rightarrow> Some x)"

type_synonym ('k, 'r) group = "('k \<times> 'r) \<times> ('k \<times> 'r) list"

fun initial_groups :: "('k \<times> 'r) list list \<Rightarrow> ('k, 'r) group list" where
  "initial_groups [] = []"
| "initial_groups (gen # generators) =
     (case gen of
        [] \<Rightarrow> initial_groups generators
      | next_date # rest \<Rightarrow> (next_date, rest) # initial_groups generators)"

text \<open>
  The inner \<^verbatim>\<open>for group in grouped\<close> loop: \<^verbatim>\<open>next_group\<close> is kept with its position in
  \<^verbatim>\<open>grouped\<close>, and is replaced only by a group whose next item starts strictly earlier.
\<close>

fun select_next ::
  "(nat \<times> ('k::linorder, 'r) group) option \<Rightarrow> nat \<Rightarrow> ('k, 'r) group list
     \<Rightarrow> (nat \<times> ('k, 'r) group) option" where
  "select_next next_group i [] = next_group"
| "select_next next_group i (grp # grouped) =
     select_next
       (case next_group of
          None \<Rightarrow> Some (i, grp)
        | Some (j, g) \<Rightarrow> if fst (fst grp) < fst (fst g) then Some (i, grp) else Some (j, g))
       (Suc i) grouped"

definition remove_at :: "nat \<Rightarrow> 'x list \<Rightarrow> 'x list" where
  "remove_at j xs = take j xs @ drop (Suc j) xs"

text \<open>
  The \<^verbatim>\<open>while\<close> loop. The groups hold distinct generator objects, so \<^verbatim>\<open>grouped.remove\<close>
  removes the selected group itself. With \<^verbatim>\<open>grouped\<close> not empty the inner loop always
  selects a group; the branch for no selection is never taken.
\<close>

function combine_loop ::
  "int option \<Rightarrow> int \<Rightarrow> ('k::linorder, 'r) group list \<Rightarrow> ('k \<times> 'r) list" where
  "combine_loop limit cnt grouped =
     (if (case limit of None \<Rightarrow> True | Some l \<Rightarrow> cnt < l)
      then
        if grouped = [] then []
        else
          (case select_next None 0 grouped of
             None \<Rightarrow> []
           | Some (j, next_group) \<Rightarrow>
               fst next_group #
                 combine_loop limit (cnt + 1)
                   (case snd next_group of
                      [] \<Rightarrow> remove_at j grouped
                    | x # rest \<Rightarrow> grouped[j := (x, rest)]))
      else [])"
  by pat_completeness auto
termination
proof (relation "measure (\<lambda>(limit, cnt, grouped). sum_list (map (\<lambda>g. Suc (length (snd g))) grouped))", goal_cases)
  case 1
  show ?case by simp
next
  case (2 limit cnt grouped x2 j next_group)
  have sel: "select_next ng i gs = Some (k, g) \<Longrightarrow>
     ng = Some (k, g) \<or> (i \<le> k \<and> k < i + length gs \<and> gs ! (k - i) = g)"
    for ng i k g and gs :: "('x::linorder, 'y) group list"
  proof (induction gs arbitrary: ng i)
    case Nil
    then show ?case by simp
  next
    case (Cons a gs)
    from Cons.IH [OF Cons.prems [simplified]]
    show ?case
      by (auto split: option.splits if_splits simp: nth_Cons')
  qed
  from 2 have "select_next None 0 grouped = Some (j, next_group)" by simp
  from sel [OF this] have j: "j < length grouped" and g: "grouped ! j = next_group" by auto
  let ?f = "\<lambda>g. Suc (length (snd g))"
  have split: "sum_list (map ?f grouped)
      = sum_list (map ?f (take j grouped)) + ?f next_group + sum_list (map ?f (drop (Suc j) grouped))"
    using id_take_nth_drop [OF j] g
    by (metis (no_types, lifting) add.assoc list.simps(9) map_append sum_list.Cons sum_list.append)
  show ?case
  proof (cases "snd next_group")
    case Nil
    then show ?thesis using split by (simp add: remove_at_def)
  next
    case (Cons x rest)
    have "grouped[j := (x, rest)] = take j grouped @ (x, rest) # drop (Suc j) grouped"
      using j by (simp add: upd_conv_take_nth_drop)
    then show ?thesis using split Cons by simp
  qed
qed

declare combine_loop.simps [simp del]

definition combine_occurrences ::
  "('k::linorder \<times> 'r) list list \<Rightarrow> int option \<Rightarrow> ('k \<times> 'r) list" where
  "combine_occurrences generators limit = combine_loop limit 0 (initial_groups generators)"

section \<open>Next occurrence and the period filters\<close>

text \<open>
  \<^verbatim>\<open>BaseModel.next_occurrence\<close> on an occurrence; \<^verbatim>\<open>now\<close> is the value of
  \<^verbatim>\<open>datetime.now()\<close>.
\<close>

definition occurrence_next_occurrence ::
  "datetime \<Rightarrow> 'a occurrence \<Rightarrow> date_arg option \<Rightarrow> date_arg option
     \<Rightarrow> 'a occ_instance option" where
  "occurrence_next_occurrence now self from_date to_date =
     (let from_date = (case from_date of None \<Rightarrow> DateTime now | Some f \<Rightarrow> f)
      in first_item (occurrence_all_occurrences self (Some from_date) to_date))"

text \<open>
  \<^verbatim>\<open>filter_invalid\<close>, for any kind of object with a primary key and a
  \<^verbatim>\<open>next_occurrence\<close> method. A queryset is the list of its rows; \<^verbatim>\<open>exclude(pk__in=...)\<close>
  keeps the rows whose key is not listed.
\<close>

definition filter_invalid ::
  "('obj \<Rightarrow> nat) \<Rightarrow> ('obj \<Rightarrow> date_arg option \<Rightarrow> date_arg option \<Rightarrow> 'i option)
     \<Rightarrow> 'obj list \<Rightarrow> date_arg option \<Rightarrow> date_arg option \<Rightarrow> 'obj list" where
  "filter_invalid pk_of next_occurrence approx_qs from_date to_date =
     (let exclude_pks =
            map pk_of (filter (\<lambda>obj. \<not> given (next_occurrence obj from_date to_date)) approx_qs)
      in filter (\<lambda>obj. pk_of obj \<notin> set exclude_pks) approx_qs)"

text \<open>
  \<^verbatim>\<open>OccurrenceQuerySet.for_period\<close>. \<^verbatim>\<open>filter\<close> keeps the rows that satisfy the condition,
  \<^verbatim>\<open>distinct\<close> drops repeated rows. The lookup \<^verbatim>\<open>repeat_until__gte=from_date\<close> compares a
  date field with a datetime, which the query layer reduces to its calendar day.
\<close>

definition occurrence_for_period ::
  "datetime \<Rightarrow> 'a occurrence list \<Rightarrow> date_arg option \<Rightarrow> date_arg option \<Rightarrow> bool
     \<Rightarrow> 'a occurrence list" where
  "occurrence_for_period now self from_date to_date exact =
     (let to_date = map_option (\<lambda>d. as_datetime d True) to_date;
          filtered_qs =
            (case to_date of
               None \<Rightarrow> self
             | Some t \<Rightarrow> remdups (filter (\<lambda>obj. start obj \<le> t) self))
      in case from_date of
           None \<Rightarrow> filtered_qs
         | Some f \<Rightarrow>
             let from_date = as_datetime f False;
                 filtered_qs =
                   remdups (filter
                     (\<lambda>obj. end_dt obj \<ge> from_date \<or>
                        (given (repeat obj) \<and>
                           ((case repeat_until obj of None \<Rightarrow> False
                             | Some ru \<Rightarrow> ru \<ge> date_of from_date) \<or>
                            repeat_until obj = None)))
                     filtered_qs)
             in if exact
                then filter_invalid pk (occurrence_next_occurrence now) filtered_qs
                       (Some (DateTime from_date)) (map_option DateTime to_date)
                else filtered_qs)"

text \<open>\<^verbatim>\<open>BaseQuerySet.all_occurrences\<close> on a queryset of occurrences.\<close>

definition occurrence_qs_all_occurrences ::
  "datetime \<Rightarrow> 'a occurrence list \<Rightarrow> date_arg option \<Rightarrow> date_arg option \<Rightarrow> int option
     \<Rightarrow> 'a occ_instance list" where
  "occurrence_qs_all_occurrences now self from_date to_date limit =
     (let qs = occurrence_for_period now self from_date to_date False
      in combine_occurrences
           (map (\<lambda>obj. occurrence_all_occurrences obj from_date to_date) qs) limit)"

section \<open>Events\<close>

text \<open>
  \<^verbatim>\<open>BaseEvent\<close>: an event and the occurrences that point to it (\<^verbatim>\<open>occurrence_set\<close>, in the
  order the occurrence queryset returns them).
\<close>

record 'a event =
  event_pk :: nat
  occurrence_set :: "'a occurrence list"

definition event_all_occurrences ::
  "datetime \<Rightarrow> 'a event \<Rightarrow> date_arg option \<Rightarrow> date_arg option \<Rightarrow> int option
     \<Rightarrow> 'a occ_instance list" where
  "event_all_occurrences now self from_date to_date limit =
     occurrence_qs_all_occurrences now (occurrence_set self) from_date to_date limit"

definition event_next_occurrence ::
  "datetime \<Rightarrow> 'a event \<Rightarrow> date_arg option \<Rightarrow> date_arg option \<Rightarrow> 'a occ_instance option" where
  "event_next_occurrence now self from_date to_date =
     (let from_date = (case from_date of None \<Rightarrow> DateTime now | Some f \<Rightarrow> f)
      in first_item (event_all_occurrences now self (Some from_date) to_date None))"

text \<open>
  \<^verbatim>\<open>EventQuerySet.for_period\<close>. A condition on \<^verbatim>\<open>occurrence__...\<close> holds for an event when
  one of its occurrences satisfies it; the conditions of one \<^verbatim>\<open>filter\<close> call are about the
  same occurrence.
\<close>

definition event_for_period ::
  "datetime \<Rightarrow> 'a event list \<Rightarrow> date_arg option \<Rightarrow> date_arg option \<Rightarrow> bool
     \<Rightarrow> 'a event list" where
  "event_for_period now self from_date to_date exact =
     (let to_date = map_option (\<lambda>d. as_datetime d True) to_date;
          filtered_qs =
            (case to_date of
               None \<Rightarrow> self
             | Some t \<Rightarrow>
                 remdups (filter
                   (\<lambda>ev. list_ex (\<lambda>obj. start obj \<le> t) (occurrence_set ev)) self))
      in case from_date of
           None \<Rightarrow> filtered_qs
         | Some f \<Rightarrow>
             let from_date = as_datetime f False;
                 filtered_qs =
                   remdups (filter
                     (\<lambda>ev. list_ex
                        (\<lambda>obj. end_dt obj \<ge> from_date \<or>
                           (given (repeat obj) \<and>
                              ((case repeat_until obj of None \<Rightarrow> False
                                | Some ru \<Rightarrow> ru \<ge> date_of from_date) \<or>
                               repeat_until obj = None)))
                        (occurrence_set ev))
                     filtered_qs)
             in if exact
                then filter_invalid event_pk (event_next_occurrence now) filtered_qs
                       (Some (DateTime from_date)) (map_option DateTime to_date)
                else filtered_qs)"

text \<open>\<^verbatim>\<open>BaseQuerySet.all_occurrences\<close> on a queryset of events.\<close>

definition event_qs_all_occurrences ::
  "datetime \<Rightarrow> 'a event list \<Rightarrow> date_arg option \<Rightarrow> date_arg option \<Rightarrow> int option
     \<Rightarrow> 'a occ_instance list" where
  "event_qs_all_occurrences now self from_date to_date limit =
     (let qs = event_for_period now self from_date to_date False
      in combine_occurrences
           (map (\<lambda>obj. event_all_occurrences now obj from_date to_date None) qs) limit)"

section \<open>Day boundaries and the representable range\<close>

text \<open>
  The two boundaries of a calendar day that the specification speaks of, the datetime at
  00:00:00 of the day and the datetime at 23:59:59 of the day, and the datetime that a
  date-or-datetime argument stands for as a lower and as an upper bound. They are written
  without \<^verbatim>\<open>as_datetime\<close>, to be compared with it.
\<close>

definition start_of_day :: "date \<Rightarrow> datetime" where
  "start_of_day n = (n - 1) * usec_per_day"

definition end_of_day :: "date \<Rightarrow> datetime" where
  "end_of_day n = start_of_day n + (23 * 3600 + 59 * 60 + 59) * 1000000"


definition upper_bound :: "date_arg \<Rightarrow> datetime" where
  "upper_bound d = (case d of Date n \<Rightarrow> end_of_day n | DateTime t \<Rightarrow> t)"




section \<open>The expansion of a repeating occurrence, restated\<close>

text \<open>
  The statements below describe the repeating branch of \<^verbatim>\<open>BaseOccurrence.all_occurrences\<close>
  through three notions: the instance built from a generated start, the upper bound that
  \<^verbatim>\<open>to_date\<close> holds after \<^verbatim>\<open>repeat_until\<close> has been taken into account, and the generated
  starts that are left once the window has been applied.
\<close>

definition make_instance :: "'a occurrence \<Rightarrow> datetime \<Rightarrow> 'a occ_instance" where
  "make_instance r s = (s, s + (end_dt r - start r), occurrence_data r)"

definition effective_to :: "'a occurrence \<Rightarrow> date_arg option \<Rightarrow> datetime option" where
  "effective_to r to_date =
     (case (to_date, repeat_until r) of
        (None, None) \<Rightarrow> None
      | (Some t, None) \<Rightarrow> Some (upper_bound t)
      | (None, Some ru) \<Rightarrow> Some (end_of_day ru)
      | (Some t, Some ru) \<Rightarrow> Some (min (upper_bound t) (end_of_day ru)))"

definition window_starts ::
  "'a occurrence \<Rightarrow> freq \<Rightarrow> date_arg option \<Rightarrow> date_arg option \<Rightarrow> datetime list" where
  "window_starts r f from_date to_date =
     (if from_date = None \<and> effective_to r to_date = None then rrule f (start r) REPEAT_MAX
      else between
             (case from_date of None \<Rightarrow> mk_datetime 1 1 1 0 0 0
              | Some d \<Rightarrow> as_datetime d False - (end_dt r - start r))
             (case effective_to r to_date of None \<Rightarrow> mk_datetime 9999 12 31 23 59 0
              | Some t \<Rightarrow> t)
             False (rrule f (start r) REPEAT_MAX))"

text \<open>
  Membership of a generated start in a window with an inclusive lower edge and an optional
  inclusive upper edge; the lower bound of \<^verbatim>\<open>next_occurrence\<close> (\<^verbatim>\<open>from_date\<close>, or the current
  moment when it is absent); and the fixed datetime that \<^verbatim>\<open>all_occurrences\<close> passes to
  \<^verbatim>\<open>between\<close> when it has no upper bound.
\<close>

definition in_window :: "datetime \<Rightarrow> datetime option \<Rightarrow> datetime \<Rightarrow> bool" where
  "in_window lo hi s \<longleftrightarrow> lo \<le> s \<and> (case hi of None \<Rightarrow> True | Some h \<Rightarrow> s \<le> h)"


definition far_future :: datetime where
  "far_future = mk_datetime 9999 12 31 23 59 0"

text \<open>The ordinal of the day before the first day of a month, by month index.\<close>

definition month_start :: "int \<Rightarrow> date" where
  "month_start mi = ymd2ord (mi div 12) (mi mod 12 + 1) 0"

text \<open>
  For the merge: the key of a group's next item, the items a group still holds, the items of
  all groups in order, groups whose items are in non-decreasing key order, the update that
  the loop applies to the selected group, and the position the inner loop selects (the
  first group among those with the least key).
\<close>

definition group_key :: "('k, 'r) group \<Rightarrow> 'k" where
  "group_key g = fst (fst g)"

definition group_items :: "('k, 'r) group \<Rightarrow> ('k \<times> 'r) list" where
  "group_items g = fst g # snd g"

definition flat :: "('k, 'r) group list \<Rightarrow> ('k \<times> 'r) list" where
  "flat grouped = concat (map group_items grouped)"

definition groups_sorted :: "('k::linorder, 'r) group list \<Rightarrow> bool" where
  "groups_sorted grouped \<longleftrightarrow> (\<forall>g\<in>set grouped. sorted (map fst (group_items g)))"

definition advance :: "nat \<Rightarrow> ('k, 'r) group list \<Rightarrow> ('k, 'r) group list" where
  "advance j grouped =
     (case snd (grouped ! j) of
        [] \<Rightarrow> remove_at j grouped
      | x # rest \<Rightarrow> grouped[j := (x, rest)])"

definition first_min :: "nat \<Rightarrow> ('k::linorder, 'r) group list \<Rightarrow> bool" where
  "first_min j grouped \<longleftrightarrow>
     j < length grouped \<and>
     (\<forall>x\<in>set grouped. group_key (grouped ! j) \<le> group_key x) \<and>
     (\<forall>m<j. group_key (grouped ! j) < group_key (grouped ! m))"

section \<open>Facts about the pattern generator and the expansion\<close>

lemma length_stepped: "length (stepped d step n) \<le> n"
proof (induction d step n rule: stepped.induct)
  case (1 d step n)
  show ?case
  proof (cases "n = 0 \<or> d > max_ordinal")
    case True
    then show ?thesis by (subst stepped.simps) simp
  next
    case False
    with "1" have "length (stepped (d + step) step (n - 1)) \<le> n - 1" by simp
    with False show ?thesis by (subst stepped.simps) auto
  qed
qed

lemma length_monthly: "length (monthly mi day n) \<le> n"
proof (induction mi day n rule: monthly.induct)
  case (1 mi day n)
  show ?case
  proof (cases "n = 0 \<or> mi \<ge> 120000")
    case True
    then show ?thesis by (subst monthly.simps) simp
  next
    case False
    show ?thesis
    proof (cases "day \<le> days_in_month (mi div 12) (mi mod 12 + 1)")
      case True
      with False "1.IH"(1) have "length (monthly (mi + 1) day (n - 1)) \<le> n - 1" by simp
      with False True show ?thesis by (subst monthly.simps) auto
    next
      case no: False
      with False "1.IH"(2) have "length (monthly (mi + 1) day n) \<le> n" by simp
      with False no show ?thesis by (subst monthly.simps) simp
    qed
  qed
qed

lemma length_yearly: "length (yearly y m day n) \<le> n"
proof (induction y m day n rule: yearly.induct)
  case (1 y m day n)
  show ?case
  proof (cases "n = 0 \<or> y > 9999")
    case True
    then show ?thesis by (subst yearly.simps) simp
  next
    case False
    show ?thesis
    proof (cases "day \<le> days_in_month y m")
      case True
      with False "1.IH"(1) have "length (yearly (y + 1) m day (n - 1)) \<le> n - 1" by simp
      with False True show ?thesis by (subst yearly.simps) auto
    next
      case no: False
      with False "1.IH"(2) have "length (yearly (y + 1) m day n) \<le> n" by simp
      with False no show ?thesis by (subst yearly.simps) simp
    qed
  qed
qed

lemma length_rrule: "length (rrule f dtstart n) \<le> n"
  by (cases f) (simp_all add: rrule_def Let_def length_stepped length_monthly length_yearly
       split: prod.splits)

lemma subseq_between: "subseq (between a b st xs) xs"
  by (induction xs arbitrary: st) auto


lemma as_datetime_upper: "as_datetime d True = upper_bound d"
  by (cases d) (simp_all add: as_datetime_def upper_bound_def end_of_day_def start_of_day_def)

lemma effective_to_as_datetime:
  "effective_to r to_date =
     (case (to_date, repeat_until r) of
        (None, None) \<Rightarrow> None
      | (Some t, None) \<Rightarrow> Some (as_datetime t True)
      | (None, Some ru) \<Rightarrow> Some (as_datetime (Date ru) True)
      | (Some t, Some ru) \<Rightarrow> Some (min (as_datetime t True) (as_datetime (Date ru) True)))"
  by (simp add: effective_to_def as_datetime_upper upper_bound_def split: option.splits)

lemma all_occurrences_repeating:
  assumes "repeat r = Some f"
  shows "occurrence_all_occurrences r from_date to_date =
           map (make_instance r) (window_starts r f from_date to_date)"
  using assms
  by (cases from_date; cases to_date; cases "repeat_until r")
     (simp_all add: occurrence_all_occurrences_def window_starts_def effective_to_as_datetime
        make_instance_def given_def Let_def min_def fun_eq_iff)

lemma subseq_window_starts:
  "subseq (window_starts r f from_date to_date) (rrule f (start r) REPEAT_MAX)"
  by (simp add: window_starts_def subseq_between)

subsection \<open>The calendar is monotone\<close>

lemma twelve_cases:
  fixes k :: int
  assumes "0 \<le> k" "k < 12"
  shows "k = 0 \<or> k = 1 \<or> k = 2 \<or> k = 3 \<or> k = 4 \<or> k = 5 \<or> k = 6 \<or> k = 7 \<or> k = 8 \<or> k = 9 \<or>
    k = 10 \<or> k = 11"
  using assms by presburger

lemma div_pred:
  fixes y n :: int
  assumes "0 < n"
  shows "y div n = (y - 1) div n + (if y mod n = 0 then 1 else 0)"
proof -
  define q r where "q = (y - 1) div n" and "r = (y - 1) mod n"
  have y: "y = q * n + (r + 1)"
    unfolding q_def r_def by simp
  have r: "0 \<le> r" "r < n"
    using assms by (simp_all add: r_def)
  show ?thesis
  proof (cases "r + 1 = n")
    case True
    then have "y = (q + 1) * n" using y by (simp add: algebra_simps)
    then have "y div n = q + 1" "y mod n = 0" using assms by simp_all
    then show ?thesis by (simp add: q_def)
  next
    case False
    with r have small: "0 \<le> r + 1" "r + 1 < n" by simp_all
    have "y div n = q + (r + 1) div n" "y mod n = (r + 1) mod n"
      using assms by (simp_all add: y)
    with small have "y div n = q" "y mod n = r + 1" by simp_all
    with r show ?thesis by (simp add: q_def)
  qed
qed

lemma mod_succ:
  fixes y n :: int
  assumes "0 < n"
  shows "(y + 1) mod n = (if y mod n = n - 1 then 0 else y mod n + 1)"
proof -
  have r: "0 \<le> y mod n" "y mod n < n" using assms by simp_all
  have eq: "(y + 1) mod n = (y mod n + 1) mod n" by (simp add: mod_add_left_eq)
  show ?thesis
  proof (cases "y mod n = n - 1")
    case True
    then show ?thesis using eq by simp
  next
    case False
    with r have "0 \<le> y mod n + 1" "y mod n + 1 < n" by simp_all
    then have "(y mod n + 1) mod n = y mod n + 1" by simp
    with False eq show ?thesis by simp
  qed
qed

lemma div_succ:
  fixes y n :: int
  assumes "0 < n"
  shows "(y + 1) div n = y div n + (if y mod n = n - 1 then 1 else 0)"
proof -
  have r: "0 \<le> y mod n" "y mod n < n" using assms by simp_all
  have "(y + 1) div n = y div n + (if (y + 1) mod n = 0 then 1 else 0)"
    using div_pred [OF assms, of "y + 1"] by simp
  moreover have "(y + 1) mod n = 0 \<longleftrightarrow> y mod n = n - 1"
    using r by (simp add: mod_succ [OF assms])
  ultimately show ?thesis by simp
qed

lemma leap_mod:
  fixes y :: int
  shows "y mod 100 = 0 \<Longrightarrow> y mod 4 = 0" and "y mod 400 = 0 \<Longrightarrow> y mod 100 = 0"
proof -
  have a: "y mod 100 mod 4 = y mod 4" by (rule mod_mod_cancel) simp
  have b: "y mod 400 mod 100 = y mod 100" by (rule mod_mod_cancel) simp
  show "y mod 100 = 0 \<Longrightarrow> y mod 4 = 0" using a by simp
  show "y mod 400 = 0 \<Longrightarrow> y mod 100 = 0" using b by simp
qed

lemma days_before_year_step:
  "days_before_year (y + 1) = days_before_year y + (if is_leap y then 366 else 365)"
proof -
  define d4 d100 d400 where "d4 = (y - 1) div 4" and "d100 = (y - 1) div 100"
    and "d400 = (y - 1) div 400"
  define b4 b100 b400 where "b4 \<longleftrightarrow> y mod 4 = 0" and "b100 \<longleftrightarrow> y mod 100 = 0"
    and "b400 \<longleftrightarrow> y mod 400 = 0"
  have e: "y div 4 = d4 + (if b4 then 1 else 0)"
    "y div 100 = d100 + (if b100 then 1 else 0)"
    "y div 400 = d400 + (if b400 then 1 else 0)"
    unfolding d4_def d100_def d400_def b4_def b100_def b400_def
    by (rule div_pred, simp)+
  have imp: "b100 \<Longrightarrow> b4" "b400 \<Longrightarrow> b100"
    unfolding b4_def b100_def b400_def by (rule leap_mod, assumption)+
  have lhs: "days_before_year (y + 1) = y * 365 + y div 4 - y div 100 + y div 400"
    by (simp add: days_before_year_def)
  have rhs: "days_before_year y = (y - 1) * 365 + d4 - d100 + d400"
    by (simp add: days_before_year_def Let_def d4_def d100_def d400_def)
  have leap: "is_leap y \<longleftrightarrow> b4 \<and> (b400 \<or> \<not> b100)"
    by (simp add: is_leap_def b4_def b100_def b400_def)
  show ?thesis
    unfolding lhs rhs leap e using imp
    by (cases b4; cases b100; cases b400; simp add: algebra_simps)
qed

lemma days_before_month_succ:
  assumes "1 \<le> m" "m < 12"
  shows "days_before_month y m < days_before_month y (m + 1)"
proof -
  from assms twelve_cases [of m]
  have "m = 1 \<or> m = 2 \<or> m = 3 \<or> m = 4 \<or> m = 5 \<or> m = 6 \<or> m = 7 \<or> m = 8 \<or> m = 9 \<or>
    m = 10 \<or> m = 11" by simp
  then show ?thesis
    by (elim disjE) (simp_all add: days_before_month_def DAYS_BEFORE_MONTH_def)
qed

lemma month_start_step: "month_start mi < month_start (mi + 1)"
proof (cases "mi mod 12 = 11")
  case True
  then have "(mi + 1) div 12 = mi div 12 + 1" "(mi + 1) mod 12 = 0"
    by (simp_all add: div_succ mod_succ)
  with True show ?thesis
    by (simp add: month_start_def ymd2ord_def days_before_year_step days_before_month_def
          DAYS_BEFORE_MONTH_def)
next
  case False
  then have eq: "(mi + 1) div 12 = mi div 12" "(mi + 1) mod 12 = mi mod 12 + 1"
    by (simp_all add: div_succ mod_succ)
  have "0 \<le> mi mod 12" "mi mod 12 < 12" by simp_all
  with False have "1 \<le> mi mod 12 + 1" "mi mod 12 + 1 < 12" by simp_all
  from days_before_month_succ [OF this, of "mi div 12"] eq show ?thesis
    by (simp add: month_start_def ymd2ord_def)
qed

lemma month_start_mono: "mi < mj \<Longrightarrow> month_start mi < month_start mj"
proof (induction mj rule: int_gr_induct)
  case base
  show ?case by (rule month_start_step)
next
  case (step i)
  then show ?case using month_start_step [of i] by simp
qed

lemma year_step: "ymd2ord y m d < ymd2ord (y + 1) m d"
  by (simp add: ymd2ord_def days_before_year_step days_before_month_def)

lemma year_mono: "y < y' \<Longrightarrow> ymd2ord y m d < ymd2ord y' m d"
proof (induction y' rule: int_gr_induct)
  case base
  show ?case by (rule year_step)
next
  case (step i)
  then show ?case using year_step [of i m d] by simp
qed

lemma stepped_sorted:
  "0 < step \<Longrightarrow>
     sorted_wrt (<) (stepped d step n) \<and> (\<forall>x\<in>set (stepped d step n). d \<le> x)"
proof (induction d step n rule: stepped.induct)
  case (1 d step n)
  show ?case
  proof (cases "n = 0 \<or> d > max_ordinal")
    case True
    then show ?thesis by (subst (1 2) stepped.simps) simp
  next
    case False
    define rest where "rest = stepped (d + step) step (n - 1)"
    from False "1" have IH: "sorted_wrt (<) rest" "\<forall>x\<in>set rest. d + step \<le> x"
      by (simp_all add: rest_def)
    from False have eq: "stepped d step n = d # rest"
      unfolding rest_def by (subst stepped.simps) simp
    from IH(2) "1.prems" have "\<forall>x\<in>set rest. d < x" by fastforce
    with IH(1) show ?thesis unfolding eq by fastforce
  qed
qed

lemma monthly_sorted:
  "sorted_wrt (<) (monthly mi day n) \<and> (\<forall>x\<in>set (monthly mi day n). month_start mi + day \<le> x)"
proof (induction mi day n rule: monthly.induct)
  case (1 mi day n)
  have step: "month_start mi < month_start (mi + 1)" by (rule month_start_step)
  show ?case
  proof (cases "n = 0 \<or> mi \<ge> 120000")
    case True
    then show ?thesis by (subst (1 2) monthly.simps) simp
  next
    case False
    show ?thesis
    proof (cases "day \<le> days_in_month (mi div 12) (mi mod 12 + 1)")
      case True
      with False "1.IH"(1) have IH: "sorted_wrt (<) (monthly (mi + 1) day (n - 1))"
        "\<forall>x\<in>set (monthly (mi + 1) day (n - 1)). month_start (mi + 1) + day \<le> x" by simp_all
      from False True have eq: "monthly mi day n =
          ymd2ord (mi div 12) (mi mod 12 + 1) day # monthly (mi + 1) day (n - 1)"
        by (subst monthly.simps) simp
      have hd: "ymd2ord (mi div 12) (mi mod 12 + 1) day = month_start mi + day"
        by (simp add: month_start_def ymd2ord_def)
      show ?thesis unfolding eq hd using IH step by fastforce
    next
      case no: False
      with False "1.IH"(2) have IH: "sorted_wrt (<) (monthly (mi + 1) day n)"
        "\<forall>x\<in>set (monthly (mi + 1) day n). month_start (mi + 1) + day \<le> x" by simp_all
      from False no have eq: "monthly mi day n = monthly (mi + 1) day n"
        by (subst monthly.simps) simp
      show ?thesis unfolding eq using IH step by fastforce
    qed
  qed
qed

lemma yearly_sorted:
  "sorted_wrt (<) (yearly y m day n) \<and> (\<forall>x\<in>set (yearly y m day n). ymd2ord y m day \<le> x)"
proof (induction y m day n rule: yearly.induct)
  case (1 y m day n)
  have step: "ymd2ord y m day < ymd2ord (y + 1) m day" by (rule year_step)
  show ?case
  proof (cases "n = 0 \<or> y > 9999")
    case True
    then show ?thesis by (subst (1 2) yearly.simps) simp
  next
    case False
    show ?thesis
    proof (cases "day \<le> days_in_month y m")
      case True
      with False "1.IH"(1) have IH: "sorted_wrt (<) (yearly (y + 1) m day (n - 1))"
        "\<forall>x\<in>set (yearly (y + 1) m day (n - 1)). ymd2ord (y + 1) m day \<le> x" by simp_all
      from False True have eq: "yearly y m day n =
          ymd2ord y m day # yearly (y + 1) m day (n - 1)"
        by (subst yearly.simps) simp
      show ?thesis unfolding eq using IH step by fastforce
    next
      case no: False
      with False "1.IH"(2) have IH: "sorted_wrt (<) (yearly (y + 1) m day n)"
        "\<forall>x\<in>set (yearly (y + 1) m day n). ymd2ord (y + 1) m day \<le> x" by simp_all
      from False no have eq: "yearly y m day n = yearly (y + 1) m day n"
        by (subst yearly.simps) simp
      show ?thesis unfolding eq using IH step by fastforce
    qed
  qed
qed

lemma rrule_strictly_sorted: "sorted_wrt (<) (rrule f dtstart n)"
proof -
  have aff: "sorted_wrt (<) ds \<Longrightarrow> sorted_wrt (<) (map (\<lambda>n. (n - 1) * usec_per_day + tod) ds)"
    for ds :: "int list" and tod :: int
    by (simp add: sorted_wrt_map usec_per_day_def)
  show ?thesis
    unfolding rrule_def Let_def
    by (rule aff) (cases f; simp add: stepped_sorted monthly_sorted yearly_sorted split: prod.splits)
qed

lemma rrule_sorted: "sorted (rrule f dtstart n)"
  using rrule_strictly_sorted [of f dtstart n]
  by (rule sorted_wrt_mono_rel [rotated]) simp

lemma between_sorted_gen:
  assumes "sorted xs" "started \<Longrightarrow> \<forall>x\<in>set xs. a \<le> x"
  shows "between a b started xs = filter (\<lambda>i. a \<le> i \<and> i \<le> b) xs"
  using assms
proof (induction xs arbitrary: started)
  case Nil
  then show ?case by simp
next
  case (Cons i xs)
  show ?case
  proof (cases "i > b")
    case True
    with Cons.prems(1) have "\<forall>x\<in>set (i # xs). \<not> x \<le> b" by auto
    then have "filter (\<lambda>i. a \<le> i \<and> i \<le> b) (i # xs) = []" by (simp add: filter_empty_conv)
    with True show ?thesis by simp
  next
    case False
    from Cons.prems(1) have s: "sorted xs" and le: "\<forall>x\<in>set xs. i \<le> x" by simp_all
    show ?thesis
    proof (cases "started \<or> a \<le> i")
      case True
      with Cons.prems(2) have ai: "a \<le> i" by auto
      with le have "\<forall>x\<in>set xs. a \<le> x" by auto
      with Cons.IH [OF s, of True] have "between a b True xs = filter (\<lambda>i. a \<le> i \<and> i \<le> b) xs"
        by simp
      with False True ai show ?thesis by auto
    next
      case no: False
      with Cons.IH [OF s, of False] have "between a b False xs = filter (\<lambda>i. a \<le> i \<and> i \<le> b) xs"
        by simp
      with False no show ?thesis by auto
    qed
  qed
qed

lemma between_sorted:
  "sorted xs \<Longrightarrow> between a b False xs = filter (\<lambda>i. a \<le> i \<and> i \<le> b) xs"
  by (rule between_sorted_gen) simp_all

subsection \<open>The window as a filter\<close>



lemma window_starts_from:
  assumes "effective_to r to_date = None \<Longrightarrow> \<forall>s\<in>set (rrule fr (start r) REPEAT_MAX). s \<le> far_future"
  shows "window_starts r fr (Some d) to_date =
           filter (in_window (as_datetime d False - (end_dt r - start r)) (effective_to r to_date))
             (rrule fr (start r) REPEAT_MAX)"
proof (cases "effective_to r to_date")
  case None
  with assms have "\<forall>s\<in>set (rrule fr (start r) REPEAT_MAX). s \<le> far_future" by simp
  then have "filter (\<lambda>i. as_datetime d False - (end_dt r - start r) \<le> i \<and> i \<le> far_future)
        (rrule fr (start r) REPEAT_MAX) =
      filter (in_window (as_datetime d False - (end_dt r - start r)) None)
        (rrule fr (start r) REPEAT_MAX)"
    by (intro filter_cong) (auto simp: in_window_def)
  with None show ?thesis
    by (simp add: window_starts_def between_sorted rrule_sorted far_future_def)
next
  case (Some t)
  then show ?thesis
    by (simp add: window_starts_def between_sorted rrule_sorted in_window_def [abs_def])
qed



lemma expansion_window:
  assumes rep: "repeat r = Some fr"
    and lo: "from_date = None \<Longrightarrow>
       \<forall>s\<in>set (rrule fr (start r) REPEAT_MAX). mk_datetime 1 1 1 0 0 0 \<le> s"
    and hi: "effective_to r to_date = None \<Longrightarrow>
       \<forall>s\<in>set (rrule fr (start r) REPEAT_MAX). s \<le> far_future"
  shows "occurrence_all_occurrences r from_date to_date =
           map (make_instance r)
             (filter (\<lambda>s. (case from_date of None \<Rightarrow> True
                            | Some d \<Rightarrow> as_datetime d False - (end_dt r - start r) \<le> s) \<and>
                           (case effective_to r to_date of None \<Rightarrow> True | Some t \<Rightarrow> s \<le> t))
                (rrule fr (start r) REPEAT_MAX))"
proof -
  let ?gen = "rrule fr (start r) REPEAT_MAX"
  have "window_starts r fr from_date to_date =
      filter (\<lambda>s. (case from_date of None \<Rightarrow> True
                            | Some d \<Rightarrow> as_datetime d False - (end_dt r - start r) \<le> s) \<and>
                           (case effective_to r to_date of None \<Rightarrow> True | Some t \<Rightarrow> s \<le> t)) ?gen"
  proof (cases from_date)
    case (Some d)
    then show ?thesis
      using window_starts_from [of r to_date fr d] hi
      by (simp add: in_window_def [abs_def])
  next
    case None
    with lo have lo': "\<forall>s\<in>set ?gen. mk_datetime 1 1 1 0 0 0 \<le> s" by simp
    show ?thesis
    proof (cases "effective_to r to_date")
      case no: None
      with None show ?thesis by (simp add: window_starts_def)
    next
      case (Some t)
      have "filter (\<lambda>i. mk_datetime 1 1 1 0 0 0 \<le> i \<and> i \<le> t) ?gen = filter (\<lambda>s. s \<le> t) ?gen"
        using lo' by (intro filter_cong) auto
      with None Some show ?thesis
        by (simp add: window_starts_def between_sorted rrule_sorted)
    qed
  qed
  then show ?thesis by (simp add: all_occurrences_repeating [OF rep])
qed

subsection \<open>The merge is a stable sort\<close>

lemma select_next_Some:
  "select_next (Some (j0, g0)) i gs = Some (k, g) \<Longrightarrow>
     (k = j0 \<and> g = g0 \<and> (\<forall>x\<in>set gs. group_key g0 \<le> group_key x)) \<or>
     (i \<le> k \<and> k < i + length gs \<and> g = gs ! (k - i) \<and> group_key g < group_key g0 \<and>
      (\<forall>x\<in>set gs. group_key g \<le> group_key x) \<and>
      (\<forall>m<k - i. group_key g < group_key (gs ! m)))"
proof (induction gs arbitrary: j0 g0 i)
  case Nil
  then show ?case by simp
next
  case (Cons a gs)
  show ?case
  proof (cases "group_key a < group_key g0")
    case True
    with Cons.prems have "select_next (Some (i, a)) (Suc i) gs = Some (k, g)"
      by (simp add: group_key_def)
    from Cons.IH [OF this] show ?thesis
    proof
      assume "k = i \<and> g = a \<and> (\<forall>x\<in>set gs. group_key a \<le> group_key x)"
      with True show ?thesis by auto
    next
      assume r: "Suc i \<le> k \<and> k < Suc i + length gs \<and> g = gs ! (k - Suc i) \<and>
        group_key g < group_key a \<and> (\<forall>x\<in>set gs. group_key g \<le> group_key x) \<and>
        (\<forall>m<k - Suc i. group_key g < group_key (gs ! m))"
      then have idx: "(a # gs) ! (k - i) = gs ! (k - Suc i)"
        by (simp add: nth_Cons')
      have "\<forall>m<k - i. group_key g < group_key ((a # gs) ! m)"
      proof (intro allI impI)
        fix m assume "m < k - i"
        with r show "group_key g < group_key ((a # gs) ! m)"
          by (cases m) auto
      qed
      with r True idx show ?thesis by auto
    qed
  next
    case False
    with Cons.prems have "select_next (Some (j0, g0)) (Suc i) gs = Some (k, g)"
      by (simp add: group_key_def)
    from Cons.IH [OF this] show ?thesis
    proof
      assume "k = j0 \<and> g = g0 \<and> (\<forall>x\<in>set gs. group_key g0 \<le> group_key x)"
      with False show ?thesis by auto
    next
      assume r: "Suc i \<le> k \<and> k < Suc i + length gs \<and> g = gs ! (k - Suc i) \<and>
        group_key g < group_key g0 \<and> (\<forall>x\<in>set gs. group_key g \<le> group_key x) \<and>
        (\<forall>m<k - Suc i. group_key g < group_key (gs ! m))"
      then have idx: "(a # gs) ! (k - i) = gs ! (k - Suc i)"
        by (simp add: nth_Cons')
      have "\<forall>m<k - i. group_key g < group_key ((a # gs) ! m)"
      proof (intro allI impI)
        fix m assume "m < k - i"
        with r False show "group_key g < group_key ((a # gs) ! m)"
          by (cases m) auto
      qed
      with r False idx show ?thesis by auto
    qed
  qed
qed

lemma select_next_defined: "\<exists>k g. select_next (Some p) i gs = Some (k, g)"
  by (induction gs arbitrary: p i) (auto split: prod.splits)

lemma select_next_first_min:
  assumes "grouped \<noteq> []"
  shows "\<exists>j. select_next None 0 grouped = Some (j, grouped ! j) \<and> first_min j grouped"
proof -
  from assms obtain a gs where g: "grouped = a # gs" by (cases grouped) auto
  obtain k g where s: "select_next (Some (0, a)) (Suc 0) gs = Some (k, g)"
    using select_next_defined by blast
  from select_next_Some [OF s] show ?thesis
  proof
    assume "k = 0 \<and> g = a \<and> (\<forall>x\<in>set gs. group_key a \<le> group_key x)"
    with s g show ?thesis by (auto simp: first_min_def)
  next
    assume r: "Suc 0 \<le> k \<and> k < Suc 0 + length gs \<and> g = gs ! (k - Suc 0) \<and>
      group_key g < group_key a \<and> (\<forall>x\<in>set gs. group_key g \<le> group_key x) \<and>
      (\<forall>m<k - Suc 0. group_key g < group_key (gs ! m))"
    then have idx: "grouped ! k = g" using g by (simp add: nth_Cons')
    have "\<forall>m<k. group_key g < group_key (grouped ! m)"
    proof (intro allI impI)
      fix m assume "m < k"
      with r g show "group_key g < group_key (grouped ! m)"
        by (cases m) auto
    qed
    with r s g idx show ?thesis by (auto simp: first_min_def)
  qed
qed

lemma combine_loop_step:
  assumes "grouped \<noteq> []" "case limit of None \<Rightarrow> True | Some l \<Rightarrow> cnt < l"
  shows "\<exists>j. first_min j grouped \<and>
           combine_loop limit cnt grouped =
             fst (grouped ! j) # combine_loop limit (cnt + 1) (advance j grouped)"
proof -
  from select_next_first_min [OF assms(1)] obtain j where
    s: "select_next None 0 grouped = Some (j, grouped ! j)" and fm: "first_min j grouped"
    by blast
  have "combine_loop limit cnt grouped =
      fst (grouped ! j) # combine_loop limit (cnt + 1) (advance j grouped)"
    using assms s by (subst combine_loop.simps) (simp add: advance_def)
  with fm show ?thesis by blast
qed

lemma combine_loop_stop:
  "grouped = [] \<or> \<not> (case limit of None \<Rightarrow> True | Some l \<Rightarrow> cnt < l) \<Longrightarrow>
     combine_loop limit cnt grouped = []"
  by (subst combine_loop.simps) auto

lemma flat_split:
  assumes "j < length grouped"
  shows "flat grouped =
           flat (take j grouped) @ fst (grouped ! j) #
             (snd (grouped ! j) @ flat (drop (Suc j) grouped))"
proof -
  have "grouped = take j grouped @ grouped ! j # drop (Suc j) grouped"
    using assms by (rule id_take_nth_drop)
  then have "flat grouped = flat (take j grouped @ grouped ! j # drop (Suc j) grouped)"
    by simp
  then show ?thesis by (simp add: flat_def group_items_def)
qed

lemma flat_advance:
  assumes "j < length grouped"
  shows "flat (advance j grouped) =
           flat (take j grouped) @ snd (grouped ! j) @ flat (drop (Suc j) grouped)"
proof (cases "snd (grouped ! j)")
  case Nil
  then show ?thesis by (simp add: advance_def remove_at_def flat_def)
next
  case (Cons x rest)
  have "grouped[j := (x, rest)] = take j grouped @ (x, rest) # drop (Suc j) grouped"
    using assms by (rule upd_conv_take_nth_drop)
  with Cons show ?thesis by (simp add: advance_def flat_def group_items_def)
qed

lemma groups_sorted_advance:
  assumes "groups_sorted grouped" "j < length grouped"
  shows "groups_sorted (advance j grouped)"
proof (cases "snd (grouped ! j)")
  case Nil
  have "set (remove_at j grouped) \<subseteq> set grouped"
    unfolding remove_at_def using set_take_subset [of j grouped] set_drop_subset [of "Suc j" grouped]
    by auto
  with assms(1) Nil show ?thesis by (auto simp: advance_def groups_sorted_def)
next
  case (Cons x rest)
  from assms have "sorted (map fst (group_items (grouped ! j)))"
    by (simp add: groups_sorted_def)
  with Cons have "sorted (map fst (group_items (x, rest)))"
    by (simp add: group_items_def)
  moreover have "set (grouped[j := (x, rest)]) \<subseteq> insert (x, rest) (set grouped)"
    by (rule set_update_subset_insert)
  ultimately show ?thesis using assms(1) Cons by (auto simp: advance_def groups_sorted_def)
qed

lemma sort_key_extract:
  assumes "\<forall>a\<in>set A. f x < f a" "\<forall>b\<in>set B. f x \<le> f b"
  shows "sort_key f (A @ x # B) = x # sort_key f (A @ B)"
proof -
  have ins: "insort_key f x (sort_key f B) = x # sort_key f B"
    using assms(2) by (intro insort_is_Cons) simp
  have "foldr (insort_key f) A (x # S) = x # foldr (insort_key f) A S"
    if "\<forall>a\<in>set A. f x < f a" for A S
    using that by (induction A) (auto simp: not_le [symmetric])
  from this [OF assms(1)] ins show ?thesis
    by (simp add: sort_key_def)
qed

lemma first_min_bounds:
  assumes fm: "first_min j grouped" and srt: "groups_sorted grouped"
  shows "\<forall>a\<in>set (flat (take j grouped)). fst (fst (grouped ! j)) < fst a"
    and "\<forall>b\<in>set (snd (grouped ! j) @ flat (drop (Suc j) grouped)).
           fst (fst (grouped ! j)) \<le> fst b"
proof -
  let ?x = "fst (grouped ! j)"
  from fm have j: "j < length grouped" by (simp add: first_min_def)
  have head_le: "fst (fst g) \<le> fst y" if "g \<in> set grouped" "y \<in> set (group_items g)" for g y
  proof -
    from srt that(1) have "sorted (map fst (fst g # snd g))"
      by (simp add: groups_sorted_def group_items_def)
    with that(2) show ?thesis by (auto simp: group_items_def)
  qed
  show "\<forall>a\<in>set (flat (take j grouped)). fst ?x < fst a"
  proof
    fix a assume "a \<in> set (flat (take j grouped))"
    then obtain g where g: "g \<in> set (take j grouped)" "a \<in> set (group_items g)"
      by (auto simp: flat_def)
    from g(1) obtain m where m: "m < j" "g = grouped ! m"
      using j by (auto simp: in_set_conv_nth)
    with fm have "fst ?x < fst (fst g)" by (simp add: first_min_def group_key_def)
    moreover from g(1) have "g \<in> set grouped" by (rule in_set_takeD)
    from head_le [OF this g(2)] have "fst (fst g) \<le> fst a" .
    ultimately show "fst ?x < fst a" by simp
  qed
  show "\<forall>b\<in>set (snd (grouped ! j) @ flat (drop (Suc j) grouped)). fst ?x \<le> fst b"
  proof
    fix b assume "b \<in> set (snd (grouped ! j) @ flat (drop (Suc j) grouped))"
    then consider "b \<in> set (snd (grouped ! j))" | "b \<in> set (flat (drop (Suc j) grouped))"
      by auto
    then show "fst ?x \<le> fst b"
    proof cases
      case 1
      then have "b \<in> set (group_items (grouped ! j))" by (simp add: group_items_def)
      from head_le [OF nth_mem [OF j] this] show ?thesis .
    next
      case 2
      then obtain g where g: "g \<in> set (drop (Suc j) grouped)" "b \<in> set (group_items g)"
        by (auto simp: flat_def)
      from g(1) have mem: "g \<in> set grouped" by (rule in_set_dropD)
      with fm have "fst ?x \<le> fst (fst g)" by (simp add: first_min_def group_key_def)
      also from head_le [OF mem g(2)] have "fst (fst g) \<le> fst b" .
      finally show ?thesis .
    qed
  qed
qed

lemma combine_loop_unlimited:
  "groups_sorted grouped \<Longrightarrow> combine_loop None cnt grouped = sort_key fst (flat grouped)"
proof (induction "length (flat grouped)" arbitrary: grouped cnt rule: less_induct)
  case less
  show ?case
  proof (cases "grouped = []")
    case True
    then show ?thesis by (simp add: combine_loop_stop flat_def)
  next
    case False
    have "case None :: int option of None \<Rightarrow> True | Some l \<Rightarrow> cnt < l" by simp
    from combine_loop_step [OF False this] obtain j where
      fm: "first_min j grouped" and
      step: "combine_loop None cnt grouped =
        fst (grouped ! j) # combine_loop None (cnt + 1) (advance j grouped)"
      by auto
    from fm have j: "j < length grouped" by (simp add: first_min_def)
    have shorter: "length (flat (advance j grouped)) < length (flat grouped)"
      by (simp add: flat_advance [OF j] flat_split [OF j])
    have "combine_loop None (cnt + 1) (advance j grouped) = sort_key fst (flat (advance j grouped))"
      using shorter groups_sorted_advance [OF less.prems j] by (rule less.hyps)
    moreover have "sort_key fst (flat grouped) =
        fst (grouped ! j) # sort_key fst (flat (advance j grouped))"
      unfolding flat_split [OF j] flat_advance [OF j]
      using first_min_bounds [OF fm less.prems] by (rule sort_key_extract)
    ultimately show ?thesis using step by simp
  qed
qed

lemma combine_loop_limited:
  "combine_loop (Some l) cnt grouped = take (nat (l - cnt)) (combine_loop None cnt grouped)"
proof (induction "length (flat grouped)" arbitrary: grouped cnt rule: less_induct)
  case less
  show ?case
  proof (cases "grouped = [] \<or> \<not> cnt < l")
    case True
    then show ?thesis
      by (auto simp: combine_loop_stop)
  next
    case False
    then have ne: "grouped \<noteq> []" and lt: "cnt < l" by simp_all
    from select_next_first_min [OF ne] obtain j where
      s: "select_next None 0 grouped = Some (j, grouped ! j)" and fm: "first_min j grouped"
      by blast
    from fm have j: "j < length grouped" by (simp add: first_min_def)
    have a: "combine_loop (Some l) cnt grouped =
        fst (grouped ! j) # combine_loop (Some l) (cnt + 1) (advance j grouped)"
      using ne lt s by (subst combine_loop.simps) (simp add: advance_def)
    have b: "combine_loop None cnt grouped =
        fst (grouped ! j) # combine_loop None (cnt + 1) (advance j grouped)"
      using ne s by (subst combine_loop.simps) (simp add: advance_def)
    have shorter: "length (flat (advance j grouped)) < length (flat grouped)"
      by (simp add: flat_advance [OF j] flat_split [OF j])
    have IH: "combine_loop (Some l) (cnt + 1) (advance j grouped) =
        take (nat (l - (cnt + 1))) (combine_loop None (cnt + 1) (advance j grouped))"
      using shorter by (rule less.hyps)
    from lt have n: "nat (l - cnt) = Suc (nat (l - (cnt + 1)))" by arith
    show ?thesis unfolding a b IH n by simp
  qed
qed

lemma flat_initial_groups: "flat (initial_groups generators) = concat generators"
  by (induction generators) (auto simp: flat_def group_items_def split: list.splits)

lemma groups_sorted_initial:
  "\<forall>g\<in>set generators. sorted (map fst g) \<Longrightarrow> groups_sorted (initial_groups generators)"
  by (induction generators) (fastforce simp: groups_sorted_def group_items_def split: list.splits)+

lemma combine_occurrences_sort:
  assumes "\<forall>g\<in>set generators. sorted (map fst g)"
  shows "combine_occurrences generators None = sort_key fst (concat generators)"
  using combine_loop_unlimited [OF groups_sorted_initial [OF assms], of 0]
  by (simp add: combine_occurrences_def flat_initial_groups)

lemma combine_occurrences_take:
  "combine_occurrences generators (Some l) = take (nat l) (combine_occurrences generators None)"
  using combine_loop_limited [of l 0 "initial_groups generators"]
  by (simp add: combine_occurrences_def)

lemma filter_tag_concat:
  assumes "\<forall>j<length xss. \<forall>x\<in>set (xss ! j). tag x = j + off" "i < length xss"
  shows "filter (\<lambda>x. tag x = i + off) (concat xss) = xss ! i"
  using assms
proof (induction xss arbitrary: i off)
  case Nil
  then show ?case by simp
next
  case (Cons xs xss)
  from Cons.prems(1) have hd: "\<forall>x\<in>set xs. tag x = off" by (auto dest: spec [of _ 0])
  from Cons.prems(1) have tl: "\<forall>j<length xss. \<forall>x\<in>set (xss ! j). tag x = j + Suc off"
    by (auto dest: spec [of _ "Suc j" for j])
  show ?case
  proof (cases i)
    case 0
    have "filter (\<lambda>x. tag x = off) (concat xss) = []"
    proof -
      have "\<forall>x\<in>set (concat xss). tag x \<noteq> off"
      proof
        fix x assume "x \<in> set (concat xss)"
        then obtain ys where "ys \<in> set xss" "x \<in> set ys" by auto
        then obtain j where "j < length xss" "x \<in> set (xss ! j)" by (auto simp: in_set_conv_nth)
        with tl show "tag x \<noteq> off" by auto
      qed
      then show ?thesis by (simp add: filter_empty_conv)
    qed
    with 0 hd show ?thesis by simp
  next
    case (Suc k)
    with Cons.prems(2) have k: "k < length xss" by simp
    from Cons.IH [OF tl k] have "filter (\<lambda>x. tag x = k + Suc off) (concat xss) = xss ! k" .
    moreover have "filter (\<lambda>x. tag x = k + Suc off) xs = []"
      using hd by (simp add: filter_empty_conv)
    ultimately show ?thesis using Suc by simp
  qed
qed

lemma combine_two_singletons:
  fixes a b :: "'k::linorder \<times> 'r"
  assumes "fst b < fst a"
  shows "combine_occurrences [[a], [b]] None = [b, a]"
proof -
  have "\<forall>g\<in>set [[a], [b]]. sorted (map fst g)" by simp
  from combine_occurrences_sort [OF this] assms show ?thesis by (simp add: not_le [symmetric])
qed

subsection \<open>The exact phase only removes records\<close>

lemma filter_invalid_subset:
  "set (filter_invalid pk_of nxt qs from_date to_date) \<subseteq> set qs"
  by (auto simp: filter_invalid_def Let_def)

lemma filter_invalid_distinct:
  assumes "distinct (map pk_of qs)"
  shows "filter_invalid pk_of nxt qs from_date to_date =
           filter (\<lambda>obj. given (nxt obj from_date to_date)) qs"
proof -
  have "pk_of obj \<in> pk_of ` {x \<in> set qs. \<not> given (nxt x from_date to_date)}
      \<longleftrightarrow> \<not> given (nxt obj from_date to_date)"
    if "obj \<in> set qs" for obj
  proof
    assume "pk_of obj \<in> pk_of ` {x \<in> set qs. \<not> given (nxt x from_date to_date)}"
    then obtain x where x: "x \<in> set qs" "\<not> given (nxt x from_date to_date)" "pk_of x = pk_of obj"
      by auto
    from assms x(1) that x(3) have "x = obj"
      by (meson distinct_map inj_onD)
    with x(2) show "\<not> given (nxt obj from_date to_date)" by simp
  next
    assume "\<not> given (nxt obj from_date to_date)"
    with that show "pk_of obj \<in> pk_of ` {x \<in> set qs. \<not> given (nxt x from_date to_date)}"
      by auto
  qed
  then show ?thesis
    by (auto simp: filter_invalid_def Let_def intro!: filter_cong)
qed

lemma occurrence_exact_subset_approximate:
  "set (occurrence_for_period now qs from_date to_date True)
     \<subseteq> set (occurrence_for_period now qs from_date to_date False)"
proof (cases from_date)
  case None
  then show ?thesis by (simp add: occurrence_for_period_def)
next
  case (Some f)
  have "occurrence_for_period now qs (Some f) to_date True =
      filter_invalid pk (occurrence_next_occurrence now)
        (occurrence_for_period now qs (Some f) to_date False)
        (Some (DateTime (as_datetime f False)))
        (map_option DateTime (map_option (\<lambda>d. as_datetime d True) to_date))"
    by (simp add: occurrence_for_period_def Let_def)
  with Some show ?thesis by (simp add: filter_invalid_subset)
qed

lemma event_exact_subset_approximate:
  "set (event_for_period now es from_date to_date True)
     \<subseteq> set (event_for_period now es from_date to_date False)"
proof (cases from_date)
  case None
  then show ?thesis by (simp add: event_for_period_def)
next
  case (Some f)
  have "event_for_period now es (Some f) to_date True =
      filter_invalid event_pk (event_next_occurrence now)
        (event_for_period now es (Some f) to_date False)
        (Some (DateTime (as_datetime f False)))
        (map_option DateTime (map_option (\<lambda>d. as_datetime d True) to_date))"
    by (simp add: event_for_period_def Let_def)
  with Some show ?thesis by (simp add: filter_invalid_subset)
qed

section \<open>The weekly scenario\<close>

text \<open>
  C1. The rule with start 2021-01-01T09:00, end 2021-01-01T10:00, weekly repetition and
  \<^verbatim>\<open>repeat_until\<close> 2021-01-22, expanded from the date 2021-01-10 to the date 2021-01-31, yields
  exactly the two instances (2021-01-15T09:00, 2021-01-15T10:00) and
  (2021-01-22T09:00, 2021-01-22T10:00), in that order, each with the rule's payload.
\<close>

theorem C1_weekly_scenario:
  "occurrence_all_occurrences
     \<lparr> pk = p, start = mk_datetime 2021 1 1 9 0 0, end_dt = mk_datetime 2021 1 1 10 0 0,
       repeat = Some WEEKLY, repeat_until = Some (mk_date 2021 1 22),
       occurrence_data = (x::string) \<rparr>
     (Some (Date (mk_date 2021 1 10))) (Some (Date (mk_date 2021 1 31)))
   = [(mk_datetime 2021 1 15 9 0 0, mk_datetime 2021 1 15 10 0 0, x),
      (mk_datetime 2021 1 22 9 0 0, mk_datetime 2021 1 22 10 0 0, x)]"
  by code_simp

section \<open>The cap on repetitions\<close>

text \<open>
  C6. For a repeating rule and any bounds, given or absent, the expansion yields at most 200
  instances: the pattern generator produces at most \<^verbatim>\<open>REPEAT_MAX\<close> = 200 starts, and the
  instances are built from a subsequence of these capped starts, so the cap comes before the
  window.
\<close>

theorem C6_at_most_200:
  assumes "repeat r = Some f"
  shows "length (occurrence_all_occurrences r from_date to_date) \<le> 200 \<and>
         length (rrule f (start r) REPEAT_MAX) \<le> 200 \<and>
         (\<exists>starts. subseq starts (rrule f (start r) REPEAT_MAX) \<and>
            occurrence_all_occurrences r from_date to_date =
              map (\<lambda>s. (s, s + (end_dt r - start r), occurrence_data r)) starts)"
proof -
  let ?ws = "window_starts r f from_date to_date"
  have gen: "length (rrule f (start r) REPEAT_MAX) \<le> 200"
    using length_rrule [of f "start r" REPEAT_MAX] by (simp add: REPEAT_MAX_def)
  have sub: "subseq ?ws (rrule f (start r) REPEAT_MAX)"
    by (rule subseq_window_starts)
  have eq: "occurrence_all_occurrences r from_date to_date =
      map (\<lambda>s. (s, s + (end_dt r - start r), occurrence_data r)) ?ws"
    using all_occurrences_repeating [OF assms] by (simp add: make_instance_def [abs_def])
  have "length ?ws \<le> length (rrule f (start r) REPEAT_MAX)"
    using sub by (rule list_emb_length)
  then have "length (occurrence_all_occurrences r from_date to_date) \<le> 200"
    using gen eq by simp
  with gen sub eq show ?thesis by blast
qed

theorem C6_at_most_200_witness:
  "length (occurrence_all_occurrences
      \<lparr> pk = 1, start = mk_datetime 2021 1 1 9 0 0, end_dt = mk_datetime 2021 1 1 10 0 0,
        repeat = Some DAILY, repeat_until = None, occurrence_data = ''talk'' \<rparr> None None) = 200"
proof -
  let ?r = "\<lparr> pk = 1, start = mk_datetime 2021 1 1 9 0 0, end_dt = mk_datetime 2021 1 1 10 0 0,
        repeat = Some DAILY, repeat_until = None, occurrence_data = ''talk'' \<rparr>"
  have "repeat ?r = Some DAILY" by simp
  from C6_at_most_200 [OF this, of None None]
  have le: "length (occurrence_all_occurrences ?r None None) \<le> 200" by blast
  have "200 \<le> length (occurrence_all_occurrences ?r None None)" by code_simp
  with le show ?thesis by simp
qed

section \<open>Non-repeating occurrences\<close>

text \<open>
  C7. For a rule without a repeat interval the expansion yields exactly one instance, the rule's
  own (start, end, payload), if and only if the start is not earlier than \<^verbatim>\<open>from_date\<close> when
  one is given, a date counting as 00:00:00 of its day, and not later than \<^verbatim>\<open>to_date\<close> when
  one is given, a date counting as 23:59:59 of its day; otherwise it yields nothing. The
  start and the end of the day \<^verbatim>\<open>date(y, m, d)\<close> are the datetimes
  \<^verbatim>\<open>datetime(y, m, d, 0, 0, 0)\<close> and \<^verbatim>\<open>datetime(y, m, d, 23, 59, 59)\<close>; these are the values of
  \<^verbatim>\<open>as_datetime\<close> on a date, and \<^verbatim>\<open>as_datetime\<close> returns a datetime as it is.
\<close>

theorem C7_non_repeating:
  "(repeat r = None \<longrightarrow>
      occurrence_all_occurrences r from_date to_date =
        (if (case from_date of None \<Rightarrow> True
             | Some (Date n) \<Rightarrow> start_of_day n \<le> start r
             | Some (DateTime t) \<Rightarrow> t \<le> start r) \<and>
            (case to_date of None \<Rightarrow> True
             | Some (Date n) \<Rightarrow> start r \<le> end_of_day n
             | Some (DateTime t) \<Rightarrow> start r \<le> t)
         then [(start r, end_dt r, occurrence_data r)] else []))
   \<and> start_of_day (mk_date y m d) = mk_datetime y m d 0 0 0
   \<and> end_of_day (mk_date y m d) = mk_datetime y m d 23 59 59
   \<and> as_datetime (Date (mk_date y m d)) False = mk_datetime y m d 0 0 0
   \<and> as_datetime (Date (mk_date y m d)) True = mk_datetime y m d 23 59 59
   \<and> as_datetime (DateTime dt) e = dt"
proof -
  have main: "repeat r = None \<longrightarrow>
      occurrence_all_occurrences r from_date to_date =
        (if (case from_date of None \<Rightarrow> True
             | Some (Date n) \<Rightarrow> start_of_day n \<le> start r
             | Some (DateTime t) \<Rightarrow> t \<le> start r) \<and>
            (case to_date of None \<Rightarrow> True
             | Some (Date n) \<Rightarrow> start r \<le> end_of_day n
             | Some (DateTime t) \<Rightarrow> start r \<le> t)
         then [(start r, end_dt r, occurrence_data r)] else [])"
  proof
    assume "repeat r = None"
    then show "occurrence_all_occurrences r from_date to_date =
        (if (case from_date of None \<Rightarrow> True
             | Some (Date n) \<Rightarrow> start_of_day n \<le> start r
             | Some (DateTime t) \<Rightarrow> t \<le> start r) \<and>
            (case to_date of None \<Rightarrow> True
             | Some (Date n) \<Rightarrow> start r \<le> end_of_day n
             | Some (DateTime t) \<Rightarrow> start r \<le> t)
         then [(start r, end_dt r, occurrence_data r)] else [])"
      by (cases from_date; cases to_date)
         (simp_all add: occurrence_all_occurrences_def as_datetime_def start_of_day_def
            end_of_day_def split: date_arg.splits)
  qed
  have sod: "start_of_day (mk_date y m d) = mk_datetime y m d 0 0 0"
    by (simp add: start_of_day_def mk_date_def mk_datetime_def usec_per_day_def)
  have eod: "end_of_day (mk_date y m d) = mk_datetime y m d 23 59 59"
    by (simp add: end_of_day_def start_of_day_def mk_date_def mk_datetime_def usec_per_day_def)
  have lo: "as_datetime (Date (mk_date y m d)) False = mk_datetime y m d 0 0 0"
    by (simp add: as_datetime_def mk_date_def mk_datetime_def usec_per_day_def)
  have hi: "as_datetime (Date (mk_date y m d)) True = mk_datetime y m d 23 59 59"
    by (simp add: as_datetime_def mk_date_def mk_datetime_def usec_per_day_def)
  have same: "as_datetime (DateTime dt) e = dt"
    by (simp add: as_datetime_def)
  from main sod eod lo hi same show ?thesis by blast
qed

theorem C7_non_repeating_witness:
  "occurrence_all_occurrences
     \<lparr> pk = 7, start = mk_datetime 2021 2 1 23 59 59, end_dt = mk_datetime 2021 2 2 1 0 0,
       repeat = None, repeat_until = None, occurrence_data = ''A'' \<rparr>
     (Some (Date (mk_date 2021 2 1))) (Some (Date (mk_date 2021 2 1)))
   = [(mk_datetime 2021 2 1 23 59 59, mk_datetime 2021 2 2 1 0 0, ''A'')]
   \<and> occurrence_all_occurrences
     \<lparr> pk = 7, start = mk_datetime 2021 2 1 23 59 59, end_dt = mk_datetime 2021 2 2 1 0 0,
       repeat = None, repeat_until = None, occurrence_data = ''A'' \<rparr>
     (Some (Date (mk_date 2021 2 2))) None = []
   \<and> occurrence_all_occurrences
     \<lparr> pk = 7, start = mk_datetime 2021 2 1 23 59 59, end_dt = mk_datetime 2021 2 2 1 0 0,
       repeat = None, repeat_until = None, occurrence_data = ''A'' \<rparr>
     None (Some (Date (mk_date 2021 1 31))) = []
   \<and> occurrence_all_occurrences
     \<lparr> pk = 7, start = mk_datetime 2021 2 1 23 59 59, end_dt = mk_datetime 2021 2 2 1 0 0,
       repeat = None, repeat_until = None, occurrence_data = ''A'' \<rparr>
     (Some (DateTime (mk_datetime 2021 2 2 0 0 0))) None = []"
proof -
  let ?r = "\<lparr> pk = 7, start = mk_datetime 2021 2 1 23 59 59, end_dt = mk_datetime 2021 2 2 1 0 0,
       repeat = None, repeat_until = None, occurrence_data = ''A'' \<rparr>"
  have h: "repeat ?r = None" by simp
  have a: "start_of_day (mk_date 2021 2 1) \<le> mk_datetime 2021 2 1 23 59 59" by code_simp
  have b: "mk_datetime 2021 2 1 23 59 59 \<le> end_of_day (mk_date 2021 2 1)" by code_simp
  have c: "\<not> start_of_day (mk_date 2021 2 2) \<le> mk_datetime 2021 2 1 23 59 59" by code_simp
  have d: "\<not> mk_datetime 2021 2 1 23 59 59 \<le> end_of_day (mk_date 2021 1 31)" by code_simp
  have e: "\<not> mk_datetime 2021 2 2 0 0 0 \<le> mk_datetime 2021 2 1 23 59 59" by code_simp
  from C7_non_repeating [of ?r "Some (Date (mk_date 2021 2 1))" "Some (Date (mk_date 2021 2 1))"]
    h a b
  have one: "occurrence_all_occurrences ?r
      (Some (Date (mk_date 2021 2 1))) (Some (Date (mk_date 2021 2 1)))
      = [(mk_datetime 2021 2 1 23 59 59, mk_datetime 2021 2 2 1 0 0, ''A'')]"
    by simp
  from C7_non_repeating [of ?r "Some (Date (mk_date 2021 2 2))" None] h c
  have two: "occurrence_all_occurrences ?r (Some (Date (mk_date 2021 2 2))) None = []"
    by simp
  from C7_non_repeating [of ?r None "Some (Date (mk_date 2021 1 31))"] h d
  have three: "occurrence_all_occurrences ?r None (Some (Date (mk_date 2021 1 31))) = []"
    by simp
  from C7_non_repeating [of ?r "Some (DateTime (mk_datetime 2021 2 2 0 0 0))" None] h e
  have four: "occurrence_all_occurrences ?r (Some (DateTime (mk_datetime 2021 2 2 0 0 0))) None
      = []"
    by simp
  from one two three four show ?thesis by simp
qed

section \<open>Duration and payload of the instances\<close>

text \<open>
  C8. For every rule and every window, each instance the expansion yields lasts exactly as
  long as the rule (\<^verbatim>\<open>instance_end - instance_start = rule.end - rule.start\<close>) and carries the
  rule's payload unchanged.
\<close>

theorem C8_duration_and_payload:
  assumes "inst \<in> set (occurrence_all_occurrences r from_date to_date)"
  shows "fst (snd inst) - fst inst = end_dt r - start r \<and> snd (snd inst) = occurrence_data r"
proof (cases "repeat r")
  case None
  with assms show ?thesis
    by (auto simp: occurrence_all_occurrences_def split: if_splits)
next
  case (Some f)
  with assms show ?thesis
    by (auto simp: all_occurrences_repeating make_instance_def)
qed

theorem C8_duration_and_payload_witness:
  "(mk_datetime 2021 1 22 9 0 0, mk_datetime 2021 1 22 10 0 0, ''talk'')
     \<in> set (occurrence_all_occurrences
         \<lparr> pk = 1, start = mk_datetime 2021 1 1 9 0 0, end_dt = mk_datetime 2021 1 1 10 0 0,
           repeat = Some WEEKLY, repeat_until = Some (mk_date 2021 1 22),
           occurrence_data = ''talk'' \<rparr>
         (Some (Date (mk_date 2021 1 10))) (Some (Date (mk_date 2021 1 31))))
   \<and> mk_datetime 2021 1 22 10 0 0 - mk_datetime 2021 1 22 9 0 0
       = mk_datetime 2021 1 1 10 0 0 - mk_datetime 2021 1 1 9 0 0"
proof -
  let ?r = "\<lparr> pk = 1, start = mk_datetime 2021 1 1 9 0 0, end_dt = mk_datetime 2021 1 1 10 0 0,
           repeat = Some WEEKLY, repeat_until = Some (mk_date 2021 1 22),
           occurrence_data = ''talk'' \<rparr>"
  have mem: "(mk_datetime 2021 1 22 9 0 0, mk_datetime 2021 1 22 10 0 0, ''talk'')
     \<in> set (occurrence_all_occurrences ?r
         (Some (Date (mk_date 2021 1 10))) (Some (Date (mk_date 2021 1 31))))"
    by code_simp
  from C8_duration_and_payload [OF mem] mem show ?thesis by simp
qed

section \<open>Validation\<close>

text \<open>
  C9 as stated does not hold in its last part. \<^verbatim>\<open>clean\<close> tests the end against the start
  first, so a rule with no repeat interval and \<^verbatim>\<open>repeat_until\<close> set whose end is not after
  its start fails with the error \<^verbatim>\<open>End must be after start\<close>, which does not name the
  missing repeat interval: the rule from 2021-03-01T10:00 to 2021-03-01T09:00 with
  \<^verbatim>\<open>repeat_until\<close> 2021-04-01.
\<close>

theorem C9_clean_counterexample:
  "clean \<lparr> pk = 3, start = mk_datetime 2021 3 1 10 0 0, end_dt = mk_datetime 2021 3 1 9 0 0,
           repeat = None, repeat_until = Some (mk_date 2021 4 1), occurrence_data = () \<rparr>
     = Inl (ValidationError ''End must be after start'')
   \<and> clean \<lparr> pk = 3, start = mk_datetime 2021 3 1 10 0 0, end_dt = mk_datetime 2021 3 1 9 0 0,
           repeat = None, repeat_until = Some (mk_date 2021 4 1), occurrence_data = () \<rparr>
     \<noteq> Inl (ValidationError ''Select a repeat interval, or remove the 'repeat until' date'')"
  by code_simp

text \<open>
  C9, amended. \<^verbatim>\<open>clean\<close> raises a validation error if and only if the start is not before
  the end, or \<^verbatim>\<open>repeat_until\<close> is set while \<^verbatim>\<open>repeat\<close> is absent, or \<^verbatim>\<open>repeat_until\<close> is
  earlier than the calendar date of the start. The checks run in this order and the first
  one that fails gives the error: a rule whose start is not before its end fails with
  \<^verbatim>\<open>End must be after start\<close>; a rule with start before end, no repeat interval and
  \<^verbatim>\<open>repeat_until\<close> set fails with the error that asks for a repeat interval; a rule with
  start before end, a repeat interval and \<^verbatim>\<open>repeat_until\<close> earlier than the date of the start
  fails with \<^verbatim>\<open>'Repeat until' cannot be before the first occurrence\<close>.
\<close>

theorem C9_clean_amended:
  "((\<exists>e. clean r = Inl e) \<longleftrightarrow>
      (start r \<ge> end_dt r \<or>
       (repeat_until r \<noteq> None \<and> repeat r = None) \<or>
       (\<exists>u. repeat_until r = Some u \<and> u < date_of (start r))))
   \<and> (start r \<ge> end_dt r \<longrightarrow>
        clean r = Inl (ValidationError ''End must be after start''))
   \<and> (start r < end_dt r \<and> repeat r = None \<and> repeat_until r \<noteq> None \<longrightarrow>
        clean r = Inl (ValidationError
          ''Select a repeat interval, or remove the 'repeat until' date''))
   \<and> (start r < end_dt r \<and> repeat r \<noteq> None \<and>
        (\<exists>u. repeat_until r = Some u \<and> u < date_of (start r)) \<longrightarrow>
        clean r = Inl (ValidationError
          '''Repeat until' cannot be before the first occurrence''))"
  by (auto simp: clean_def clean_checks_def given_def split: option.splits)

theorem C9_clean_amended_witness:
  "clean \<lparr> pk = 3, start = mk_datetime 2021 3 1 9 0 0, end_dt = mk_datetime 2021 3 1 10 0 0,
           repeat = None, repeat_until = Some (mk_date 2021 4 1), occurrence_data = () \<rparr>
     = Inl (ValidationError ''Select a repeat interval, or remove the 'repeat until' date'')
   \<and> clean \<lparr> pk = 3, start = mk_datetime 2021 3 1 10 0 0, end_dt = mk_datetime 2021 3 1 9 0 0,
           repeat = None, repeat_until = Some (mk_date 2021 4 1), occurrence_data = () \<rparr>
     = Inl (ValidationError ''End must be after start'')
   \<and> clean \<lparr> pk = 3, start = mk_datetime 2021 3 1 9 0 0, end_dt = mk_datetime 2021 3 1 10 0 0,
           repeat = Some WEEKLY, repeat_until = Some (mk_date 2021 2 28),
           occurrence_data = () \<rparr>
     = Inl (ValidationError '''Repeat until' cannot be before the first occurrence'')"
proof -
  let ?a = "\<lparr> pk = 3, start = mk_datetime 2021 3 1 9 0 0, end_dt = mk_datetime 2021 3 1 10 0 0,
           repeat = None, repeat_until = Some (mk_date 2021 4 1), occurrence_data = () \<rparr>"
  let ?b = "\<lparr> pk = 3, start = mk_datetime 2021 3 1 10 0 0, end_dt = mk_datetime 2021 3 1 9 0 0,
           repeat = None, repeat_until = Some (mk_date 2021 4 1), occurrence_data = () \<rparr>"
  let ?c = "\<lparr> pk = 3, start = mk_datetime 2021 3 1 9 0 0, end_dt = mk_datetime 2021 3 1 10 0 0,
           repeat = Some WEEKLY, repeat_until = Some (mk_date 2021 2 28),
           occurrence_data = () \<rparr>"
  have lt: "mk_datetime 2021 3 1 9 0 0 < mk_datetime 2021 3 1 10 0 0" by code_simp
  have before: "mk_date 2021 2 28 < date_of (mk_datetime 2021 3 1 9 0 0)" by code_simp
  from C9_clean_amended [of ?a] lt
  have one: "clean ?a
      = Inl (ValidationError ''Select a repeat interval, or remove the 'repeat until' date'')"
    by simp
  from C9_clean_amended [of ?b] lt
  have two: "clean ?b = Inl (ValidationError ''End must be after start'')"
    by simp
  from C9_clean_amended [of ?c] lt before
  have three: "clean ?c
      = Inl (ValidationError '''Repeat until' cannot be before the first occurrence'')"
    by simp
  from one two three show ?thesis by simp
qed

section \<open>The exact filter needs a lower bound\<close>

text \<open>
  C10. For every collection of occurrences or of events and every \<^verbatim>\<open>to_date\<close>,
  \<^verbatim>\<open>for_period\<close> with \<^verbatim>\<open>from_date\<close> absent returns the same collection for \<^verbatim>\<open>exact=True\<close>
  as for \<^verbatim>\<open>exact=False\<close>: the expansion-based phase runs only when \<^verbatim>\<open>from_date\<close> is given.
\<close>

theorem C10_exact_needs_from_date:
  "occurrence_for_period now qs None to_date True = occurrence_for_period now qs None to_date False
   \<and> event_for_period now es None to_date True = event_for_period now es None to_date False"
  by (simp add: occurrence_for_period_def event_for_period_def)

section \<open>Merging sorted streams\<close>

text \<open>
  C2. For every list of input sequences, each sorted non-decreasingly by first component, and
  any limit or none, \<^verbatim>\<open>combine_occurrences\<close> yields a sequence that is non-decreasing by first
  component; without a limit it is the stable sort of the inputs laid end to end, so its
  multiset of items is the union of the inputs' items; with a limit it is the first
  \<^verbatim>\<open>limit\<close> items of that sequence (none for a limit below one), so its length is the smaller
  of the limit and the total number of items; among items with the same first component
  those of an earlier input come first and each input's own order is kept; and when every
  item carries the position of its input, the items of one input appear in the output in
  the order they have in that input. In the scenario of two non-repeating rules A (start
  2021-02-01T08:00) and B (start 2021-02-01T07:00), merging the expansion of A and then that
  of B yields B's instance before A's.
\<close>

theorem C2_merge:
  fixes generators :: "('k::linorder \<times> 'r) list list"
  assumes "\<forall>g\<in>set generators. sorted (map fst g)"
  shows "sorted (map fst (combine_occurrences generators limit))
    \<and> combine_occurrences generators None = sort_key fst (concat generators)
    \<and> mset (combine_occurrences generators None) = (\<Sum>g\<leftarrow>generators. mset g)
    \<and> (\<forall>l. combine_occurrences generators (Some l)
             = take (nat l) (combine_occurrences generators None))
    \<and> length (combine_occurrences generators limit)
        = (case limit of None \<Rightarrow> sum_list (map length generators)
           | Some l \<Rightarrow> min (nat l) (sum_list (map length generators)))
    \<and> (\<forall>k. filter (\<lambda>x. fst x = k) (combine_occurrences generators None)
             = concat (map (filter (\<lambda>x. fst x = k)) generators))
    \<and> (\<forall>tag. (\<forall>j<length generators. \<forall>x\<in>set (generators ! j). tag x = j) \<longrightarrow>
          (\<forall>i<length generators.
              filter (\<lambda>x. tag x = i) (combine_occurrences generators None) = generators ! i))
    \<and> combine_occurrences
         [occurrence_all_occurrences
            \<lparr> pk = pa, start = mk_datetime 2021 2 1 8 0 0, end_dt = ea, repeat = None,
              repeat_until = None, occurrence_data = da \<rparr> None None,
          occurrence_all_occurrences
            \<lparr> pk = pb, start = mk_datetime 2021 2 1 7 0 0, end_dt = eb, repeat = None,
              repeat_until = None, occurrence_data = db \<rparr> None None]
         None
        = [(mk_datetime 2021 2 1 7 0 0, eb, db), (mk_datetime 2021 2 1 8 0 0, ea, da)]"
proof -
  let ?all = "combine_occurrences generators None"
  have full: "?all = sort_key fst (concat generators)"
    using assms by (rule combine_occurrences_sort)
  have lim: "combine_occurrences generators (Some l) = take (nat l) ?all" for l
    by (rule combine_occurrences_take)
  have sorted_all: "sorted (map fst ?all)"
    unfolding full by (rule sorted_sort_key)
  have srt: "sorted (map fst (combine_occurrences generators limit))"
  proof (cases limit)
    case None
    with sorted_all show ?thesis by simp
  next
    case (Some l)
    from sorted_all have "sorted (take (nat l) (map fst ?all))" by (rule sorted_wrt_take)
    with Some show ?thesis by (simp add: lim take_map)
  qed
  have ms: "mset ?all = (\<Sum>g\<leftarrow>generators. mset g)"
    unfolding full by (simp add: mset_concat)
  have total: "length ?all = sum_list (map length generators)"
    unfolding full by (simp add: length_concat)
  have len: "length (combine_occurrences generators limit)
        = (case limit of None \<Rightarrow> sum_list (map length generators)
           | Some l \<Rightarrow> min (nat l) (sum_list (map length generators)))"
    using total by (cases limit) (simp_all add: lim min.commute)
  have ties: "filter (\<lambda>x. fst x = k) ?all = concat (map (filter (\<lambda>x. fst x = k)) generators)"
    for k
    unfolding full by (simp add: sort_key_stable filter_concat)
  have src: "filter (\<lambda>x. tag x = i) ?all = generators ! i"
    if tags: "\<forall>j<length generators. \<forall>x\<in>set (generators ! j). tag x = j"
      and i: "i < length generators" for tag :: "'k \<times> 'r \<Rightarrow> nat" and i
  proof -
    from tags have "\<forall>j<length generators. \<forall>x\<in>set (generators ! j). tag x = j + 0" by simp
    from filter_tag_concat [OF this i]
    have "filter (\<lambda>x. tag x = i) (concat generators) = generators ! i" by simp
    moreover from assms i have "sorted (map fst (generators ! i))" by simp
    ultimately show ?thesis
      unfolding full by (simp add: filter_sort sort_key_id_if_sorted)
  qed
  have ab: "mk_datetime 2021 2 1 7 0 0 < mk_datetime 2021 2 1 8 0 0"
    by (simp add: mk_datetime_def)
  have scen: "combine_occurrences
         [occurrence_all_occurrences
            \<lparr> pk = pa, start = mk_datetime 2021 2 1 8 0 0, end_dt = ea, repeat = None,
              repeat_until = None, occurrence_data = da \<rparr> None None,
          occurrence_all_occurrences
            \<lparr> pk = pb, start = mk_datetime 2021 2 1 7 0 0, end_dt = eb, repeat = None,
              repeat_until = None, occurrence_data = db \<rparr> None None]
         None
        = [(mk_datetime 2021 2 1 7 0 0, eb, db), (mk_datetime 2021 2 1 8 0 0, ea, da)]"
    using combine_two_singletons [of "(mk_datetime 2021 2 1 7 0 0, eb, db)"
        "(mk_datetime 2021 2 1 8 0 0, ea, da)"] ab
    by (simp add: occurrence_all_occurrences_def)
  from srt full ms lim len ties src scen show ?thesis by blast
qed

theorem C2_merge_witness:
  "combine_occurrences
     [[(1::int, ''a1''), (3, ''a2''), (3, ''a3'')], [], [(1, ''b1''), (2, ''b2''), (3, ''b3'')]]
     (Some 5)
   = [(1, ''a1''), (1, ''b1''), (2, ''b2''), (3, ''a2''), (3, ''a3'')]
   \<and> combine_occurrences
     [[(1::int, ''a1''), (3, ''a2''), (3, ''a3'')], [], [(1, ''b1''), (2, ''b2''), (3, ''b3'')]]
     None
   = [(1, ''a1''), (1, ''b1''), (2, ''b2''), (3, ''a2''), (3, ''a3''), (3, ''b3'')]"
proof -
  let ?gens = "[[(1::int, ''a1''), (3, ''a2''), (3, ''a3'')], [],
      [(1, ''b1''), (2, ''b2''), (3, ''b3'')]]"
  have h: "\<forall>g\<in>set ?gens. sorted (map fst g)" by simp
  have s: "sort_key fst (concat ?gens)
      = [(1, ''a1''), (1, ''b1''), (2, ''b2''), (3, ''a2''), (3, ''a3''), (3, ''b3'')]"
    by simp
  note merged = C2_merge [OF h, of None]
  have full: "combine_occurrences ?gens None = sort_key fst (concat ?gens)"
    by (rule merged [THEN conjunct2, THEN conjunct1])
  have lim: "combine_occurrences ?gens (Some 5) = take (nat 5) (combine_occurrences ?gens None)"
    by (rule merged [THEN conjunct2, THEN conjunct2, THEN conjunct2, THEN conjunct1, THEN spec])
  show ?thesis unfolding lim full s by simp
qed

section \<open>Next occurrence\<close>




section \<open>The upper edge when no upper bound is given\<close>

text \<open>
  C4. The effective upper bound is the smaller of \<^verbatim>\<open>to_date\<close> and the end of the
  \<^verbatim>\<open>repeat_until\<close> day, or whichever is present, and the lower edge is \<^verbatim>\<open>from_date\<close> moved
  back by the rule's duration (lemma \<open>expansion_window\<close>). With neither upper bound the claim
  says the expansion is unbounded above. Evaluated on a daily rule that starts at
  9999-12-31T23:59:30 and lasts 15 seconds: without any bound the expansion yields the rule's
  instance, but with \<^verbatim>\<open>from_date\<close> = 9999-12-31 and no upper bound it yields nothing, although
  the only generated start is not before the shifted lower edge: the datetime passed to
  \<^verbatim>\<open>between\<close> in place of a missing upper bound is 9999-12-31T23:59:00, not the last
  representable datetime.
\<close>

theorem C4_upper_sentinel:
  "occurrence_all_occurrences
     \<lparr> pk = 4, start = mk_datetime 9999 12 31 23 59 30, end_dt = mk_datetime 9999 12 31 23 59 45,
       repeat = Some DAILY, repeat_until = None, occurrence_data = ''late'' \<rparr>
     (Some (Date (mk_date 9999 12 31))) None = []
   \<and> occurrence_all_occurrences
     \<lparr> pk = 4, start = mk_datetime 9999 12 31 23 59 30, end_dt = mk_datetime 9999 12 31 23 59 45,
       repeat = Some DAILY, repeat_until = None, occurrence_data = ''late'' \<rparr>
     None None
     = [(mk_datetime 9999 12 31 23 59 30, mk_datetime 9999 12 31 23 59 45, ''late'')]
   \<and> rrule DAILY (mk_datetime 9999 12 31 23 59 30) REPEAT_MAX = [mk_datetime 9999 12 31 23 59 30]
   \<and> as_datetime (Date (mk_date 9999 12 31)) False
        - (mk_datetime 9999 12 31 23 59 45 - mk_datetime 9999 12 31 23 59 30)
       \<le> mk_datetime 9999 12 31 23 59 30"
  by code_simp

section \<open>The approximate filter\<close>

text \<open>
  C5. The claim says the approximate phase of \<^verbatim>\<open>for_period\<close> never discards a record that
  has an instance in the window, so that the exact phase returns exactly the records with an
  instance. Evaluated on a valid daily rule 23:00-01:00 starting 2021-01-01 with
  \<^verbatim>\<open>repeat_until\<close> 2021-01-03 and the window from 2021-01-04: the rule's expansion over this
  window yields the instance of 2021-01-03T23:00, which ends at 01:00 on 2021-01-04, but
  \<^verbatim>\<open>for_period\<close> drops the rule in the approximate phase, with and without \<^verbatim>\<open>exact\<close>, and the
  queryset's \<^verbatim>\<open>all_occurrences\<close> yields nothing. The first containment of the claim holds:
  the exact result is always part of the approximate one (lemmas
  \<open>occurrence_exact_subset_approximate\<close> and \<open>event_exact_subset_approximate\<close>).
\<close>

theorem C5_approximate_filter_discards:
  "occurrence_all_occurrences
     \<lparr> pk = 5, start = mk_datetime 2021 1 1 23 0 0, end_dt = mk_datetime 2021 1 2 1 0 0,
       repeat = Some DAILY, repeat_until = Some (mk_date 2021 1 3), occurrence_data = ''night'' \<rparr>
     (Some (Date (mk_date 2021 1 4))) None
     = [(mk_datetime 2021 1 3 23 0 0, mk_datetime 2021 1 4 1 0 0, ''night'')]
   \<and> occurrence_for_period (mk_datetime 2021 1 1 0 0 0)
       [\<lparr> pk = 5, start = mk_datetime 2021 1 1 23 0 0, end_dt = mk_datetime 2021 1 2 1 0 0,
          repeat = Some DAILY, repeat_until = Some (mk_date 2021 1 3),
          occurrence_data = ''night'' \<rparr>]
       (Some (Date (mk_date 2021 1 4))) None False = []
   \<and> occurrence_for_period (mk_datetime 2021 1 1 0 0 0)
       [\<lparr> pk = 5, start = mk_datetime 2021 1 1 23 0 0, end_dt = mk_datetime 2021 1 2 1 0 0,
          repeat = Some DAILY, repeat_until = Some (mk_date 2021 1 3),
          occurrence_data = ''night'' \<rparr>]
       (Some (Date (mk_date 2021 1 4))) None True = []
   \<and> occurrence_qs_all_occurrences (mk_datetime 2021 1 1 0 0 0)
       [\<lparr> pk = 5, start = mk_datetime 2021 1 1 23 0 0, end_dt = mk_datetime 2021 1 2 1 0 0,
          repeat = Some DAILY, repeat_until = Some (mk_date 2021 1 3),
          occurrence_data = ''night'' \<rparr>]
       (Some (Date (mk_date 2021 1 4))) None None = []
   \<and> clean \<lparr> pk = 5, start = mk_datetime 2021 1 1 23 0 0, end_dt = mk_datetime 2021 1 2 1 0 0,
          repeat = Some DAILY, repeat_until = Some (mk_date 2021 1 3),
          occurrence_data = ''night'' \<rparr> = Inr ()"
  by code_simp

end
